theory Spec2Isabelle
  imports Complex_Main "HOL-Library.Multiset" "HOL-Library.AList" "HOL-Library.Char_ord"
begin

section \<open>Strings and timestamps\<close>

text \<open>
  The cache library lives in \<^verbatim>\<open>lib/cache.ts\<close> (the listing that follows the globe
  component). Strings are \<^typ>\<open>string\<close>; \<^verbatim>\<open>s.slice(0, n)\<close> is \<^term>\<open>take n s\<close>.
\<close>

text \<open>\<^verbatim>\<open>xs.join(sep)\<close> of an array of strings.\<close>

fun join_with :: "string \<Rightarrow> string list \<Rightarrow> string" where
  "join_with sep [] = []"
| "join_with sep [x] = x"
| "join_with sep (x # y # ys) = x @ sep @ join_with sep (y # ys)"

text \<open>\<^verbatim>\<open>s.replace(a, b)\<close> with single characters: the first occurrence only.\<close>

fun replace_first :: "char \<Rightarrow> char \<Rightarrow> string \<Rightarrow> string" where
  "replace_first a b [] = []"
| "replace_first a b (c # cs) = (if c = a then b # cs else c # replace_first a b cs)"

text \<open>
  \<^verbatim>\<open>export function snapToHour(dateStr) { return dateStr.slice(0, 13) + ":00:00"; }\<close>
\<close>

definition snapToHour :: "string \<Rightarrow> string" where
  "snapToHour dateStr = take 13 dateStr @ '':00:00''"

subsection \<open>The platform's \<^verbatim>\<open>Date\<close>\<close>

text \<open>
  \<^verbatim>\<open>Date\<close> is a builtin of the platform, not code of the repository. \<open>Date_getTime\<close> is
  \<^verbatim>\<open>new Date(s).getTime()\<close>, milliseconds since the epoch, with \<open>None\<close> for \<^verbatim>\<open>NaN\<close> (an
  invalid date). It is modelled for the two forms \<open>ttlForRange\<close> makes of a string that went
  through \<open>snapToHour\<close>, with a four-digit year:
  \<^item> \<^verbatim>\<open>YYYY-MM-DDTHH:mm:ssZ\<close>, from a parameter that has its hour. The month is 1 to 12 and
    the day 1 to 31; a day past the end of its month counts on into the next month
    (\<^verbatim>\<open>2025-02-30\<close> is March 2). The time is up to \<^verbatim>\<open>23:59:59\<close>, or \<^verbatim>\<open>24:00:00\<close>, the
    midnight that ends the day.
  \<^item> \<^verbatim>\<open>YYYY-MM-DD:00:00Z\<close>, from a parameter that is a date only (\<open>snapToHour\<close> appends
    \<^verbatim>\<open>:00:00\<close> to its ten characters): the midnight that begins the day, in UTC.

  Every other string is taken as invalid. \<open>toISOString\<close> is the method of that name for years
  0 to 9999. The calendar arithmetic is the usual days-from-civil computation on the
  proleptic Gregorian calendar, which is linear in the day of the month.
\<close>

definition digit_of :: "char \<Rightarrow> int option" where
  "digit_of c = (let n = of_char c :: nat in
     if 48 \<le> n \<and> n \<le> 57 then Some (int n - 48) else None)"

fun digits_of :: "string \<Rightarrow> int \<Rightarrow> int option" where
  "digits_of [] acc = Some acc"
| "digits_of (c # cs) acc =
     (case digit_of c of None \<Rightarrow> None | Some d \<Rightarrow> digits_of cs (10 * acc + d))"

definition days_from_civil :: "int \<Rightarrow> int \<Rightarrow> int \<Rightarrow> int" where
  "days_from_civil y m d =
     (let y' = (if m \<le> 2 then y - 1 else y);
          era = y' div 400;
          yoe = y' - era * 400;
          doy = (153 * (if m > 2 then m - 3 else m + 9) + 2) div 5 + d - 1;
          doe = yoe * 365 + yoe div 4 - yoe div 100 + doy
      in era * 146097 + doe - 719468)"

definition civil_from_days :: "int \<Rightarrow> int \<times> int \<times> int" where
  "civil_from_days z =
     (let z' = z + 719468;
          era = z' div 146097;
          doe = z' - era * 146097;
          yoe = (doe - doe div 1460 + doe div 36524 - doe div 146096) div 365;
          doy = doe - (365 * yoe + yoe div 4 - yoe div 100);
          mp = (5 * doy + 2) div 153;
          d = doy - (153 * mp + 2) div 5 + 1;
          m = (if mp < 10 then mp + 3 else mp - 9)
      in (yoe + era * 400 + (if m \<le> 2 then 1 else 0), m, d))"

definition Date_getTime :: "string \<Rightarrow> int option" where
  "Date_getTime s =
     (if length s = 20 \<and> s ! 4 = CHR ''-'' \<and> s ! 7 = CHR ''-'' \<and> s ! 10 = CHR ''T''
         \<and> s ! 13 = CHR '':'' \<and> s ! 16 = CHR '':'' \<and> s ! 19 = CHR ''Z''
      then
        (case (digits_of (take 4 s) 0, digits_of (take 2 (drop 5 s)) 0,
               digits_of (take 2 (drop 8 s)) 0, digits_of (take 2 (drop 11 s)) 0,
               digits_of (take 2 (drop 14 s)) 0, digits_of (take 2 (drop 17 s)) 0) of
           (Some y, Some m, Some d, Some hh, Some mi, Some ss) \<Rightarrow>
             if 1 \<le> m \<and> m \<le> 12 \<and> 1 \<le> d \<and> d \<le> 31
                \<and> (hh \<le> 23 \<and> mi \<le> 59 \<and> ss \<le> 59 \<or> hh = 24 \<and> mi = 0 \<and> ss = 0)
             then Some ((((days_from_civil y m d * 24 + hh) * 60 + mi) * 60 + ss) * 1000)
             else None
         | _ \<Rightarrow> None)
      else if length s = 17 \<and> s ! 4 = CHR ''-'' \<and> s ! 7 = CHR ''-'' \<and> drop 10 s = '':00:00Z''
      then
        (case (digits_of (take 4 s) 0, digits_of (take 2 (drop 5 s)) 0,
               digits_of (take 2 (drop 8 s)) 0) of
           (Some y, Some m, Some d) \<Rightarrow>
             if 1 \<le> m \<and> m \<le> 12 \<and> 1 \<le> d \<and> d \<le> 31
             then Some (days_from_civil y m d * 24 * 60 * 60 * 1000)
             else None
         | _ \<Rightarrow> None)
      else None)"

definition digit_char :: "int \<Rightarrow> char" where
  "digit_char d = char_of (nat (48 + d mod 10))"

definition pad2 :: "int \<Rightarrow> string" where
  "pad2 n = [digit_char (n div 10), digit_char n]"

definition pad3 :: "int \<Rightarrow> string" where
  "pad3 n = [digit_char (n div 100), digit_char (n div 10), digit_char n]"

definition pad4 :: "int \<Rightarrow> string" where
  "pad4 n = [digit_char (n div 1000), digit_char (n div 100), digit_char (n div 10), digit_char n]"

definition toISOString :: "int \<Rightarrow> string" where
  "toISOString t =
     (let days = t div 86400000;
          ms = t mod 86400000;
          (y, m, d) = civil_from_days days
      in pad4 y @ ''-'' @ pad2 m @ ''-'' @ pad2 d @ ''T''
         @ pad2 (ms div 3600000) @ '':'' @ pad2 (ms div 60000 mod 60) @ '':''
         @ pad2 (ms div 1000 mod 60) @ ''.'' @ pad3 (ms mod 1000) @ ''Z'')"

text \<open>\<^verbatim>\<open>Math.round(x)\<close>: the nearest integer, halves upwards.\<close>

definition Math_round :: "real \<Rightarrow> int" where
  "Math_round x = \<lfloor>x + 1 / 2\<rfloor>"

section \<open>TTL policy\<close>

text \<open>
  \<^verbatim>\<open>
  export function ttlForRange(startDate: string, endDate: string): number {
    const startMs = new Date(startDate.replace(" ", "T") + "Z").getTime();
    const endMs = new Date(endDate.replace(" ", "T") + "Z").getTime();
    const spanHours = (endMs - startMs) / (3600 * 1000);
    if (spanHours >= 7 * 24) return 6 * 60 * 60 * 1000;  // 7d+: cache 6 hours
    if (spanHours >= 24) return 2 * 60 * 60 * 1000;       // 24h+: cache 2 hours
    return 1 * 60 * 60 * 1000;                             // <24h: cache 1 hour
  }
  \<close>
  A comparison with \<^verbatim>\<open>NaN\<close> is false, so an invalid date falls through to the last
  \<^verbatim>\<open>return\<close>.
\<close>

definition spanHours :: "string \<Rightarrow> string \<Rightarrow> real option" where
  "spanHours startDate endDate =
     (case (Date_getTime (replace_first CHR '' '' CHR ''T'' startDate @ ''Z''),
            Date_getTime (replace_first CHR '' '' CHR ''T'' endDate @ ''Z'')) of
        (Some startMs, Some endMs) \<Rightarrow> Some (real_of_int (endMs - startMs) / (3600 * 1000))
      | _ \<Rightarrow> None)"

definition ttlForRange :: "string \<Rightarrow> string \<Rightarrow> int" where
  "ttlForRange startDate endDate =
     (case spanHours startDate endDate of
        None \<Rightarrow> 1 * 60 * 60 * 1000
      | Some h \<Rightarrow>
          if h \<ge> 7 * 24 then 6 * 60 * 60 * 1000
          else if h \<ge> 24 then 2 * 60 * 60 * 1000
          else 1 * 60 * 60 * 1000)"

text \<open>
  The routes turn the result into seconds before they use it:
  \<^verbatim>\<open>const ttlSec = Math.round(ttl / 1000);\<close>
\<close>

definition ttlSec_of :: "int \<Rightarrow> int" where
  "ttlSec_of ttl = Math_round (real_of_int ttl / 1000)"

section \<open>Fingerprints\<close>

text \<open>
  \<^verbatim>\<open>
  export function cacheKey(queryId: string, params: Record<string, string>): string {
    const sorted = Object.entries(params).sort(([a], [b]) => a.localeCompare(b));
    return `${queryId}:${sorted.map(([k, v]) => `${k}=${v}`).join("&")}`;
  }
  \<close>
  \<^verbatim>\<open>params\<close> is the list \<^verbatim>\<open>Object.entries(params)\<close>, in the order the object
  enumerates its properties. \<^verbatim>\<open>Array.prototype.sort\<close> is stable: an entry moves in front of
  another only where the comparator is positive, which is the insertion sort \<open>js_sort\<close>.
  \<^verbatim>\<open>localeCompare\<close> is a builtin of the platform and a parameter of the model.
\<close>

fun insert_sorted :: "('a \<Rightarrow> 'a \<Rightarrow> int) \<Rightarrow> 'a \<Rightarrow> 'a list \<Rightarrow> 'a list" where
  "insert_sorted c x [] = [x]"
| "insert_sorted c x (y # ys) = (if c x y \<le> 0 then x # y # ys else y # insert_sorted c x ys)"

definition js_sort :: "('a \<Rightarrow> 'a \<Rightarrow> int) \<Rightarrow> 'a list \<Rightarrow> 'a list" where
  "js_sort c xs = foldr (insert_sorted c) xs []"

definition cacheKey :: "(string \<Rightarrow> string \<Rightarrow> int) \<Rightarrow> string \<Rightarrow> (string \<times> string) list \<Rightarrow> string" where
  "cacheKey cmp queryId params =
     (let sorted = js_sort (\<lambda>a b. cmp (fst a) (fst b)) params
      in queryId @ '':'' @ join_with ''&'' (map (\<lambda>(k, v). k @ ''='' @ v) sorted))"

text \<open>
  A comparator for the examples and the routes: code-unit order, which is how
  \<^verbatim>\<open>localeCompare\<close> orders the lower-case ASCII parameter names the routes use.
\<close>

fun compare_codes :: "string \<Rightarrow> string \<Rightarrow> int" where
  "compare_codes [] [] = 0"
| "compare_codes [] (b # bs) = -1"
| "compare_codes (a # as) [] = 1"
| "compare_codes (a # as) (b # bs) =
     (if a < b then -1 else if b < a then 1 else compare_codes as bs)"

text \<open>
  \<^verbatim>\<open>localeCompare\<close> itself compares by the collation of the platform, not by code unit, and
  code points that the collation ignores take no part in the comparison. Among the code
  units below 128 these are the control characters other than tab, line feed, vertical
  tab, form feed and carriage return: \<^verbatim>\<open>"a\u0001".localeCompare("a")\<close> is 0. The model
  \<open>localeCompare\<close> is the comparison on names made of lower-case ASCII letters, underscores
  and ignorable control characters: the code-unit order of what is left of the two names
  once the ignorable characters are dropped.
\<close>

definition ignorable :: "char \<Rightarrow> bool" where
  "ignorable c = (let n = of_char c :: nat in n \<le> 8 \<or> (14 \<le> n \<and> n \<le> 31) \<or> n = 127)"

definition localeCompare :: "string \<Rightarrow> string \<Rightarrow> int" where
  "localeCompare a b =
     compare_codes (filter (\<lambda>c. \<not> ignorable c) a) (filter (\<lambda>c. \<not> ignorable c) b)"





section \<open>Values, promises and the edge cache\<close>

text \<open>
  The values the routes handle: what \<^verbatim>\<open>JSON.parse\<close> yields, and \<^verbatim>\<open>undefined\<close> and
  \<^verbatim>\<open>NaN\<close>, which property reads and \<^verbatim>\<open>Number\<close> produce. Numbers are the integers (the
  upstream returns counts). An object is the list of its properties in enumeration order.
\<close>

datatype jsval =
    JNull | JUndefined | JNaN
  | JBool bool | JNum int | JStr string
  | JArr "jsval list" | JObj "(string \<times> jsval) list"

text \<open>A thrown value: an \<^verbatim>\<open>Error\<close> with its message, or anything else, with its \<^verbatim>\<open>String()\<close>.\<close>

datatype thrown = ErrorObj string | NonError string

text \<open>What awaiting a promise gives: its value, or the value it rejects with.\<close>

datatype 'a promise = Resolves 'a | Rejects thrown

text \<open>\<^verbatim>\<open>if (x)\<close>, \<^verbatim>\<open>!x\<close>, \<^verbatim>\<open>x || y\<close>: JavaScript's truthiness.\<close>

fun truthy :: "jsval \<Rightarrow> bool" where
  "truthy JNull = False"
| "truthy JUndefined = False"
| "truthy JNaN = False"
| "truthy (JBool b) = b"
| "truthy (JNum n) = (n \<noteq> 0)"
| "truthy (JStr s) = (s \<noteq> [])"
| "truthy (JArr xs) = True"
| "truthy (JObj fs) = True"

definition js_or :: "jsval \<Rightarrow> jsval \<Rightarrow> jsval" where
  "js_or x y = (if truthy x then x else y)"

text \<open>
  The platform's cache store. \<^verbatim>\<open>caches\<close> may not exist at all (reading it throws, as in
  local development), \<^verbatim>\<open>caches.default\<close> may be undefined, or it is the cache. Any call
  of \<^verbatim>\<open>cache.match\<close> or \<^verbatim>\<open>cache.put\<close> may reject. A stored response either has a body
  that \<^verbatim>\<open>res.json()\<close> reads back (kept as the value it serialises, with its
  \<^verbatim>\<open>max-age\<close>), or one whose reading or parsing fails.
\<close>

datatype cache_api = Caches_undefined | Default_missing | Default_cache

datatype stored = Cached jsval int | Broken thrown

record edge_store =
  api :: cache_api
  match_rejects :: "string \<Rightarrow> thrown option"
  put_rejects :: "string \<Rightarrow> thrown option"
  entries :: "(string \<times> stored) list"

text \<open>
  \<^verbatim>\<open>
  async function getCfCache(): Promise<Cache | null> {
    try { return (caches as unknown as { default: Cache }).default ?? null; }
    catch { return null; }
  }
  \<close>
  \<open>True\<close> stands for the cache, \<open>False\<close> for \<^verbatim>\<open>null\<close>.
\<close>

definition getCfCache :: "edge_store \<Rightarrow> bool" where
  "getCfCache e =
     (case api e of
        Caches_undefined \<Rightarrow> False
      | Default_missing \<Rightarrow> False
      | Default_cache \<Rightarrow> True)"

text \<open>\<^verbatim>\<open>cache.match(new Request(url))\<close> and \<^verbatim>\<open>res.json()\<close>, as the platform answers.\<close>

definition cache_match :: "edge_store \<Rightarrow> string \<Rightarrow> stored option promise" where
  "cache_match e url =
     (case match_rejects e url of
        Some err \<Rightarrow> Rejects err
      | None \<Rightarrow> Resolves (map_of (entries e) url))"

definition response_json :: "stored \<Rightarrow> jsval promise" where
  "response_json res = (case res of Cached v ttl \<Rightarrow> Resolves v | Broken err \<Rightarrow> Rejects err)"

text \<open>
  \<^verbatim>\<open>
  export async function cfCacheMatch(url: string): Promise<unknown | null> {
    const cache = await getCfCache();
    if (!cache) return null;
    try {
      const res = await cache.match(new Request(url));
      if (!res) return null;
      return res.json();
    } catch {
      return null;
    }
  }
  \<close>
  \<^verbatim>\<open>cache.match\<close> is awaited inside \<^verbatim>\<open>try\<close>, so its rejection reaches the \<^verbatim>\<open>catch\<close>.
  \<^verbatim>\<open>res.json()\<close> is returned without \<^verbatim>\<open>await\<close>: the \<^verbatim>\<open>try\<close> block has completed when
  that promise settles, and the promise of \<open>cfCacheMatch\<close> takes its outcome, a rejection
  included.
\<close>

definition cfCacheMatch :: "string \<Rightarrow> edge_store \<Rightarrow> jsval promise" where
  "cfCacheMatch url e =
     (if \<not> getCfCache e then Resolves JNull
      else
        (case cache_match e url of
           Rejects err \<Rightarrow> Resolves JNull
         | Resolves None \<Rightarrow> Resolves JNull
         | Resolves (Some res) \<Rightarrow> response_json res))"

text \<open>
  \<^verbatim>\<open>
  export async function cfCachePut(url: string, data: unknown, ttlSec: number): Promise<void> {
    const cache = await getCfCache();
    if (!cache) return;
    try {
      const res = new Response(JSON.stringify(data), { headers: { ...,
          "Cache-Control": `public, max-age=${ttlSec}` } });
      await cache.put(new Request(url), res);
    } catch {
      // Ignore
    }
  }
  \<close>
\<close>

definition cfCachePut :: "string \<Rightarrow> jsval \<Rightarrow> int \<Rightarrow> edge_store \<Rightarrow> unit promise \<times> edge_store" where
  "cfCachePut url data ttlSec e =
     (if \<not> getCfCache e then (Resolves (), e)
      else
        (case put_rejects e url of
           Some err \<Rightarrow> (Resolves (), e)
         | None \<Rightarrow> (Resolves (), e\<lparr>entries := AList.update url (Cached data ttlSec) (entries e)\<rparr>)))"

section \<open>The routes\<close>

text \<open>
  A route handler is a function of the request, the clock and the world around it. The
  world holds the edge cache, the coalescer's table as it stands when the handler asks
  (each pending entry with the outcome its promise settles with), the upstream query
  engine (what \<^verbatim>\<open>runQueryAndWait\<close> settles with for a query and its parameters), and the
  trace of the effects performed so far.
\<close>

datatype effect =
    Cache_match string
  | Cache_put string jsval int
  | Dedup_join string
  | Upstream_call string string int "(string \<times> string) list"

record world =
  edge :: edge_store
  inflight_now :: "(string \<times> jsval promise) list"
  upstream :: "string \<Rightarrow> (string \<times> string) list \<Rightarrow> jsval promise"
  trace :: "effect list"

record response =
  status :: nat
  body :: jsval
  headers :: "(string \<times> string) list"

text \<open>\<^verbatim>\<open>NextResponse.json(data)\<close> and \<^verbatim>\<open>NextResponse.json(data, { status })\<close>.\<close>

definition json_response :: "jsval \<Rightarrow> response" where
  "json_response data = \<lparr>status = 200, body = data, headers = []\<rparr>"

definition error_response :: "string \<Rightarrow> nat \<Rightarrow> response" where
  "error_response message code = \<lparr>status = code, body = JObj [(''error'', JStr message)], headers = []\<rparr>"

text \<open>\<^verbatim>\<open>err instanceof Error ? err.message : "Unknown error"\<close>\<close>

definition error_message :: "thrown \<Rightarrow> string" where
  "error_message err = (case err of ErrorObj m \<Rightarrow> m | NonError s \<Rightarrow> ''Unknown error'')"

text \<open>\<^verbatim>\<open>await cfCacheMatch(url)\<close> and \<^verbatim>\<open>await cfCachePut(url, data, ttlSec)\<close> in a handler.\<close>

definition await_cfCacheMatch :: "string \<Rightarrow> world \<Rightarrow> jsval promise \<times> world" where
  "await_cfCacheMatch url w = (cfCacheMatch url (edge w), w\<lparr>trace := trace w @ [Cache_match url]\<rparr>)"

definition await_cfCachePut :: "string \<Rightarrow> jsval \<Rightarrow> int \<Rightarrow> world \<Rightarrow> unit promise \<times> world" where
  "await_cfCachePut url data ttlSec w =
     (let (r, e') = cfCachePut url data ttlSec (edge w)
      in (r, w\<lparr>edge := e', trace := trace w @ [Cache_put url data ttlSec]\<rparr>))"

text \<open>
  \<^verbatim>\<open>runQueryAndWait(queryId, apiKey, maxWaitMs, params)\<close>: the upstream operation. It is an
  \<^verbatim>\<open>async\<close> function: every failure, its timeout included, is a rejection.
\<close>

definition runQueryAndWait :: "string \<Rightarrow> string \<Rightarrow> int \<Rightarrow> (string \<times> string) list \<Rightarrow> world
    \<Rightarrow> jsval promise \<times> world" where
  "runQueryAndWait queryId apiKey maxWaitMs params w =
     (upstream w queryId params, w\<lparr>trace := trace w @ [Upstream_call queryId apiKey maxWaitMs params]\<rparr>)"

text \<open>
  \<^verbatim>\<open>await dedup(key, fetcher)\<close> as one handler sees it: with an entry for the key in the
  table the handler waits for that entry's promise and the fetcher is not invoked,
  otherwise the fetcher is invoked and the handler waits for its promise.
\<close>

definition await_dedup :: "string \<Rightarrow> (world \<Rightarrow> jsval promise \<times> world) \<Rightarrow> world \<Rightarrow> jsval promise \<times> world" where
  "await_dedup key fetcher w =
     (case map_of (inflight_now w) key of
        Some existing \<Rightarrow> (existing, w\<lparr>trace := trace w @ [Dedup_join key]\<rparr>)
      | None \<Rightarrow> fetcher w)"

text \<open>Decimal digits of a number, for template strings.\<close>

function show_nat :: "nat \<Rightarrow> string" where
  "show_nat n = (if n < 10 then [digit_char (int n)] else show_nat (n div 10) @ [digit_char (int n)])"
  by pat_completeness auto
termination
  by (relation "measure id") auto

definition show_int :: "int \<Rightarrow> string" where
  "show_int i = (if i < 0 then ''-'' @ show_nat (nat (- i)) else show_nat (nat i))"

text \<open>\<^verbatim>\<open>a || b\<close> for a query parameter (\<^verbatim>\<open>searchParams.get\<close> gives a string or \<^verbatim>\<open>null\<close>).\<close>

definition or_default :: "string option \<Rightarrow> string \<Rightarrow> string" where
  "or_default p d = (case p of None \<Rightarrow> d | Some s \<Rightarrow> if s = [] then d else s)"

text \<open>\<^verbatim>\<open>!apiKey\<close> for \<^verbatim>\<open>process.env.ALLIUM_API_KEY\<close>.\<close>

definition missing :: "string option \<Rightarrow> bool" where
  "missing p = (case p of None \<Rightarrow> True | Some s \<Rightarrow> s = [])"

text \<open>\<^verbatim>\<open>d.toISOString().replace("T", " ").slice(0, 19)\<close>\<close>

definition iso_timestamp :: "int \<Rightarrow> string" where
  "iso_timestamp t = take 19 (replace_first CHR ''T'' CHR '' '' (toISOString t))"

text \<open>\<^verbatim>\<open>Math.floor(now.getTime() / (3600 * 1000)) * 3600 * 1000\<close>\<close>

definition hour_floor :: "int \<Rightarrow> int" where
  "hour_floor now = \<lfloor>real_of_int now / (3600 * 1000)\<rfloor> * 3600 * 1000"

subsection \<open>Flows and bridges\<close>

text \<open>
  \<^verbatim>\<open>
  const now = new Date();
  const endSnapped = new Date(Math.floor(now.getTime() / (3600 * 1000)) * 3600 * 1000);
  const startSnapped = new Date(endSnapped.getTime() - 24 * 3600 * 1000);
  const defaultEnd = endSnapped.toISOString().replace("T", " ").slice(0, 19);
  const defaultStart = startSnapped.toISOString().replace("T", " ").slice(0, 19);
  const params = {
    start_date: snapToHour(startDate || defaultStart),
    end_date: snapToHour(endDate || defaultEnd),
  };
  \<close>
  The bridges route reads the same with \<^verbatim>\<open>endSnapped.getTime() - 3600 * 1000\<close>.
  The pair is \<open>(start_date, end_date)\<close>.
\<close>

definition flows_params :: "string option \<Rightarrow> string option \<Rightarrow> int \<Rightarrow> string \<times> string" where
  "flows_params startDate endDate now =
     (let endSnapped = hour_floor now;
          startSnapped = endSnapped - 24 * 3600 * 1000;
          defaultEnd = iso_timestamp endSnapped;
          defaultStart = iso_timestamp startSnapped
      in (snapToHour (or_default startDate defaultStart), snapToHour (or_default endDate defaultEnd)))"

definition bridges_params :: "string option \<Rightarrow> string option \<Rightarrow> int \<Rightarrow> string \<times> string" where
  "bridges_params startDate endDate now =
     (let endSnapped = hour_floor now;
          startSnapped = endSnapped - 3600 * 1000;
          defaultEnd = iso_timestamp endSnapped;
          defaultStart = iso_timestamp startSnapped
      in (snapToHour (or_default startDate defaultStart), snapToHour (or_default endDate defaultEnd)))"

text \<open>\<^verbatim>\<open>Object.entries(params)\<close> of the object literal above.\<close>

definition param_entries :: "string \<times> string \<Rightarrow> (string \<times> string) list" where
  "param_entries p = [(''start_date'', fst p), (''end_date'', snd p)]"

definition FLOWS_QUERY_ID :: string where
  "FLOWS_QUERY_ID = ''Gfa6Z0NU15RsYA4Hp3vB''"

definition BRIDGE_QUERY_ID :: string where
  "BRIDGE_QUERY_ID = ''i812m0VJTKobVxsYvdHB''"

definition WALLET_QUERY_ID :: string where
  "WALLET_QUERY_ID = ''uOYFdeodat5P0qaLVW2t''"

text \<open>
  The part the two handlers share, after the parameters are fixed (the flows route waits
  300000 ms for the upstream, the bridges route 30000 ms):
  \<^verbatim>\<open>
  const cacheUrl = `https://cache.internal/api/flows?start_date=${...}&end_date=${...}`;
  const cached = await cfCacheMatch(cacheUrl);
  if (cached) { return NextResponse.json(cached); }
  const key = cacheKey(FLOWS_QUERY_ID, params);
  const ttl = ttlForRange(params.start_date, params.end_date);
  const ttlSec = Math.round(ttl / 1000);
  try {
    const result = await dedup(key, () => runQueryAndWait(FLOWS_QUERY_ID, apiKey, 300000, params));
    await cfCachePut(cacheUrl, result, ttlSec);
    return NextResponse.json(result, { headers: { "Cache-Control":
      `public, s-maxage=${ttlSec}, stale-while-revalidate=${ttlSec * 2}` } });
  } catch (err) {
    const message = err instanceof Error ? err.message : "Unknown error";
    return NextResponse.json({ error: message }, { status: 500 });
  }
  \<close>
  A handler that rejects (an error outside its \<^verbatim>\<open>try\<close>) gives \<open>Rejects\<close>.
\<close>

definition range_cacheUrl :: "string \<Rightarrow> string \<times> string \<Rightarrow> string" where
  "range_cacheUrl path params =
     ''https://cache.internal/api/'' @ path @ ''?start_date='' @ fst params @ ''&end_date='' @ snd params"

definition range_route :: "string \<Rightarrow> string \<Rightarrow> int \<Rightarrow> string \<Rightarrow> string \<times> string \<Rightarrow> world
    \<Rightarrow> response promise \<times> world" where
  "range_route path queryId maxWaitMs apiKey params w =
     (let cacheUrl = range_cacheUrl path params;
          (cached, w1) = await_cfCacheMatch cacheUrl w
      in case cached of
           Rejects err \<Rightarrow> (Rejects err, w1)
         | Resolves c \<Rightarrow>
             if truthy c then (Resolves (json_response c), w1)
             else
               (let key = cacheKey compare_codes queryId (param_entries params);
                    ttl = ttlForRange (fst params) (snd params);
                    ttlSec = ttlSec_of ttl;
                    (result, w2) = await_dedup key
                       (runQueryAndWait queryId apiKey maxWaitMs (param_entries params)) w1
                in case result of
                     Rejects err \<Rightarrow> (Resolves (error_response (error_message err) 500), w2)
                   | Resolves r \<Rightarrow>
                       (let (u, w3) = await_cfCachePut cacheUrl r ttlSec w2
                        in case u of
                             Rejects err \<Rightarrow> (Resolves (error_response (error_message err) 500), w3)
                           | Resolves u' \<Rightarrow>
                               (Resolves \<lparr>status = 200, body = r,
                                  headers = [(''Cache-Control'', ''public, s-maxage='' @ show_int ttlSec
                                     @ '', stale-while-revalidate='' @ show_int (ttlSec * 2))]\<rparr>, w3))))"

text \<open>
  \<^verbatim>\<open>
  export async function GET(request: NextRequest) {
    const apiKey = process.env.ALLIUM_API_KEY;
    if (!apiKey) {
      return NextResponse.json({ error: "Missing ALLIUM_API_KEY" }, { status: 500 });
    }
    const { searchParams } = request.nextUrl;
    const startDate = searchParams.get("start_date");
    const endDate = searchParams.get("end_date");
    ...
  \<close>
\<close>

definition flows_GET :: "string option \<Rightarrow> string option \<Rightarrow> string option \<Rightarrow> int \<Rightarrow> world
    \<Rightarrow> response promise \<times> world" where
  "flows_GET apiKey startDate endDate now w =
     (if missing apiKey then (Resolves (error_response ''Missing ALLIUM_API_KEY'' 500), w)
      else range_route ''flows'' FLOWS_QUERY_ID 300000 (the apiKey)
             (flows_params startDate endDate now) w)"

definition bridges_GET :: "string option \<Rightarrow> string option \<Rightarrow> string option \<Rightarrow> int \<Rightarrow> world
    \<Rightarrow> response promise \<times> world" where
  "bridges_GET apiKey startDate endDate now w =
     (if missing apiKey then (Resolves (error_response ''Missing ALLIUM_API_KEY'' 500), w)
      else range_route ''bridges'' BRIDGE_QUERY_ID 30000 (the apiKey)
             (bridges_params startDate endDate now) w)"

subsection \<open>Wallet\<close>

text \<open>\<^verbatim>\<open>s.toLowerCase()\<close> on the ASCII letters, which is all an address or chain name holds.\<close>

definition lower_char :: "char \<Rightarrow> char" where
  "lower_char c = (if CHR ''A'' \<le> c \<and> c \<le> CHR ''Z'' then char_of (of_char c + 32 :: nat) else c)"

definition toLowerCase :: "string \<Rightarrow> string" where
  "toLowerCase s = map lower_char s"

text \<open>
  \<^verbatim>\<open>v.name\<close>: reading a property of \<^verbatim>\<open>null\<close> or \<^verbatim>\<open>undefined\<close> throws a \<^verbatim>\<open>TypeError\<close>;
  a missing property, and any of the names used here on a primitive or an array, is
  \<^verbatim>\<open>undefined\<close>. \<^verbatim>\<open>v?.name\<close> gives \<^verbatim>\<open>undefined\<close> instead of throwing.
\<close>

definition read_prop :: "jsval \<Rightarrow> string \<Rightarrow> thrown + jsval" where
  "read_prop v name =
     (case v of
        JNull \<Rightarrow> Inl (ErrorObj (''Cannot read properties of null (reading '' @ name @ '')''))
      | JUndefined \<Rightarrow> Inl (ErrorObj (''Cannot read properties of undefined (reading '' @ name @ '')''))
      | JObj fs \<Rightarrow> Inr (case map_of fs name of Some x \<Rightarrow> x | None \<Rightarrow> JUndefined)
      | _ \<Rightarrow> Inr JUndefined)"

definition read_opt :: "jsval \<Rightarrow> string \<Rightarrow> jsval" where
  "read_opt v name = (case read_prop v name of Inl err \<Rightarrow> JUndefined | Inr x \<Rightarrow> x)"

text \<open>\<^verbatim>\<open>row.UPPER || row.lower || dflt\<close>\<close>

definition field_or :: "jsval \<Rightarrow> string \<Rightarrow> string \<Rightarrow> jsval \<Rightarrow> thrown + jsval" where
  "field_or row upper lower dflt =
     (case read_prop row upper of
        Inl err \<Rightarrow> Inl err
      | Inr a \<Rightarrow>
          if truthy a then Inr a
          else (case read_prop row lower of
                  Inl err \<Rightarrow> Inl err
                | Inr b \<Rightarrow> Inr (js_or b dflt)))"

text \<open>
  \<^verbatim>\<open>Number(x)\<close> on the values a count arrives as (a number, a string of decimal digits,
  a boolean); anything else is taken to \<^verbatim>\<open>NaN\<close>. \<^verbatim>\<open>a + b\<close> and \<^verbatim>\<open>a < b\<close> on numbers,
  and \<^verbatim>\<open>a < b\<close> on two strings (by code units).
\<close>

definition Number_of :: "jsval \<Rightarrow> jsval" where
  "Number_of v =
     (case v of
        JNum n \<Rightarrow> JNum n
      | JBool b \<Rightarrow> JNum (if b then 1 else 0)
      | JNull \<Rightarrow> JNum 0
      | JStr s \<Rightarrow> (case digits_of s 0 of Some n \<Rightarrow> JNum n | None \<Rightarrow> JNaN)
      | _ \<Rightarrow> JNaN)"

definition num_add :: "jsval \<Rightarrow> jsval \<Rightarrow> jsval" where
  "num_add a b = (case (a, b) of (JNum x, JNum y) \<Rightarrow> JNum (x + y) | _ \<Rightarrow> JNaN)"

definition js_less :: "jsval \<Rightarrow> jsval \<Rightarrow> bool" where
  "js_less a b =
     (case (a, b) of
        (JStr x, JStr y) \<Rightarrow> compare_codes x y < 0
      | (JNum x, JNum y) \<Rightarrow> x < y
      | _ \<Rightarrow> False)"

text \<open>
  The value kept per counterparty in \<^verbatim>\<open>cpMap\<close>; \<open>tokens\<close> is the \<^verbatim>\<open>Set\<close>, in
  insertion order.
\<close>

record counterparty =
  entity :: jsval
  sent :: jsval
  received :: jsval
  tokens :: "jsval list"
  firstSeen :: jsval

text \<open>
  One turn of \<^verbatim>\<open>for (const row of rows)\<close>:
  \<^verbatim>\<open>
  const addr = (row.COUNTERPARTY_ADDRESS || row.counterparty_address || "").toLowerCase();
  const direction = row.DIRECTION || row.direction || "";
  const txCount = Number(row.TX_COUNT || row.tx_count || 0);
  const category = row.CATEGORY || row.category || "unknown";
  const project = row.PROJECT || row.project || "";
  const name = row.NAME || row.name || "";
  const firstSeen = row.FIRST_SEEN || row.first_seen || undefined;
  // Skip self-references
  if (addr === address.toLowerCase()) continue;
  const existing = cpMap.get(addr) || { entity: { chain, address: addr, category, project, name },
    sent: 0, received: 0, tokens: new Set<string>(), firstSeen: undefined };
  if (direction === "sent") { existing.sent += txCount; } else { existing.received += txCount; }
  existing.tokens.add(category);
  if (firstSeen && (!existing.firstSeen || firstSeen < existing.firstSeen)) {
    existing.firstSeen = firstSeen;
  }
  cpMap.set(addr, existing);
  \<close>
  \<^verbatim>\<open>toLowerCase\<close> exists on strings only: called on another value it throws.
\<close>

definition new_counterparty :: "string \<Rightarrow> string \<Rightarrow> jsval \<Rightarrow> jsval \<Rightarrow> jsval \<Rightarrow> counterparty" where
  "new_counterparty chain addr category project name =
     \<lparr>entity = JObj [(''chain'', JStr chain), (''address'', JStr addr),
                     (''category'', category), (''project'', project), (''name'', name)],
      sent = JNum 0, received = JNum 0, tokens = [], firstSeen = JUndefined\<rparr>"

definition row_step :: "string \<Rightarrow> string \<Rightarrow> jsval \<Rightarrow> (string \<times> counterparty) list
    \<Rightarrow> thrown + (string \<times> counterparty) list" where
  "row_step address chain row cpMap =
     (case field_or row ''COUNTERPARTY_ADDRESS'' ''counterparty_address'' (JStr []) of
        Inl err \<Rightarrow> Inl err
      | Inr (JStr a) \<Rightarrow>
          (let addr = toLowerCase a in
           case (field_or row ''DIRECTION'' ''direction'' (JStr []),
                 field_or row ''TX_COUNT'' ''tx_count'' (JNum 0),
                 field_or row ''CATEGORY'' ''category'' (JStr ''unknown''),
                 field_or row ''PROJECT'' ''project'' (JStr []),
                 field_or row ''NAME'' ''name'' (JStr []),
                 field_or row ''FIRST_SEEN'' ''first_seen'' JUndefined) of
             (Inr direction, Inr rawCount, Inr category, Inr project, Inr name, Inr seen) \<Rightarrow>
               if addr = toLowerCase address then Inr cpMap
               else
                 (let txCount = Number_of rawCount;
                      existing = (case map_of cpMap addr of
                          Some c \<Rightarrow> c
                        | None \<Rightarrow> new_counterparty chain addr category project name);
                      e1 = (if direction = JStr ''sent''
                            then existing\<lparr>sent := num_add (sent existing) txCount\<rparr>
                            else existing\<lparr>received := num_add (received existing) txCount\<rparr>);
                      e2 = e1\<lparr>tokens := (if category \<in> set (tokens e1) then tokens e1
                                          else tokens e1 @ [category])\<rparr>;
                      e3 = (if truthy seen \<and> (\<not> truthy (firstSeen e2) \<or> js_less seen (firstSeen e2))
                            then e2\<lparr>firstSeen := seen\<rparr> else e2)
                  in Inr (AList.update addr e3 cpMap))
           | _ \<Rightarrow> Inl (ErrorObj ''Cannot read properties of a row''))
      | Inr other \<Rightarrow> Inl (ErrorObj ''toLowerCase is not a function''))"

fun aggregate :: "string \<Rightarrow> string \<Rightarrow> jsval list \<Rightarrow> (string \<times> counterparty) list
    \<Rightarrow> thrown + (string \<times> counterparty) list" where
  "aggregate address chain [] cpMap = Inr cpMap"
| "aggregate address chain (row # rows) cpMap =
     (case row_step address chain row cpMap of
        Inl err \<Rightarrow> Inl err
      | Inr cpMap' \<Rightarrow> aggregate address chain rows cpMap')"

text \<open>
  \<^verbatim>\<open>
  const counterparties = Array.from(cpMap.entries())
    .map(([addr, data]) => ({ address: addr, chain, entity: data.entity, totalSent: data.sent,
      totalReceived: data.received, transferCount: data.sent + data.received,
      tokens: Array.from(data.tokens), firstSeen: data.firstSeen }))
    .sort((a, b) => b.transferCount - a.transferCount);
  \<close>
  A comparator result of \<^verbatim>\<open>NaN\<close> counts as zero.
\<close>

definition enriched :: "string \<Rightarrow> string \<times> counterparty \<Rightarrow> jsval" where
  "enriched chain e =
     JObj [(''address'', JStr (fst e)), (''chain'', JStr chain), (''entity'', entity (snd e)),
           (''totalSent'', sent (snd e)), (''totalReceived'', received (snd e)),
           (''transferCount'', num_add (sent (snd e)) (received (snd e))),
           (''tokens'', JArr (tokens (snd e))), (''firstSeen'', firstSeen (snd e))]"

definition by_transferCount :: "jsval \<Rightarrow> jsval \<Rightarrow> int" where
  "by_transferCount a b =
     (case (read_opt b ''transferCount'', read_opt a ''transferCount'') of
        (JNum x, JNum y) \<Rightarrow> x - y
      | _ \<Rightarrow> 0)"

definition counterparties_of :: "string \<Rightarrow> (string \<times> counterparty) list \<Rightarrow> jsval list" where
  "counterparties_of chain cpMap = js_sort by_transferCount (map (enriched chain) cpMap)"

definition wallet_data :: "string \<Rightarrow> string \<Rightarrow> jsval list \<Rightarrow> jsval" where
  "wallet_data address chain cps =
     JObj [(''address'', JStr address), (''chain'', JStr chain),
           (''transactions'', JArr []), (''counterparties'', JArr cps)]"

text \<open>\<^verbatim>\<open>const rows = result?.data || result || [];\<close>\<close>

definition wallet_rows :: "jsval \<Rightarrow> jsval" where
  "wallet_rows result = js_or (js_or (read_opt result ''data'') result) (JArr [])"

definition wallet_cacheUrl :: "string \<Rightarrow> string \<Rightarrow> string" where
  "wallet_cacheUrl address chain =
     ''https://cache.internal/api/wallet?address='' @ toLowerCase address @ ''&chain='' @ chain"

definition wallet_key :: "string \<Rightarrow> string \<Rightarrow> string" where
  "wallet_key address chain = ''wallet:'' @ toLowerCase address @ '':'' @ chain"

definition wallet_headers :: "(string \<times> string) list" where
  "wallet_headers = [(''Cache-Control'', ''public, s-maxage=3600, stale-while-revalidate=7200'')]"

text \<open>
  \<^verbatim>\<open>
  export async function GET(request: NextRequest) {
    const apiKey = process.env.ALLIUM_API_KEY;
    if (!apiKey) { return NextResponse.json({ error: "Missing ALLIUM_API_KEY" }, { status: 500 }); }
    const { searchParams } = request.nextUrl;
    const address = searchParams.get("address");
    const chain = searchParams.get("chain") || "ethereum";
    if (!address) {
      return NextResponse.json({ error: "Missing address parameter" }, { status: 400 });
    }
    const cacheUrl = `https://cache.internal/api/wallet?address=${address.toLowerCase()}&chain=${chain}`;
    const cached = await cfCacheMatch(cacheUrl);
    if (cached) { return NextResponse.json(cached, { headers: { "Cache-Control": ... } }); }
    try {
      const walletKey = `wallet:${address.toLowerCase()}:${chain}`;
      const result = await dedup(walletKey, () => runQueryAndWait(WALLET_QUERY_ID, apiKey, 60000,
        { wallet_address: address.toLowerCase(), chain }));
      const rows = result?.data || result || [];
      if (!Array.isArray(rows) || rows.length === 0) {
        return NextResponse.json({ address, chain, transactions: [], counterparties: [] });
      }
      ... the loop and the sort above ...
      const response: WalletData = { address, chain, transactions: [], counterparties };
      await cfCachePut(cacheUrl, response, 3600);
      return NextResponse.json(response, { headers: { "Cache-Control": ... } });
    } catch (err) {
      const message = err instanceof Error ? err.message : "Unknown error";
      return NextResponse.json({ error: message }, { status: 500 });
    }
  }
  \<close>
\<close>

definition wallet_GET :: "string option \<Rightarrow> string option \<Rightarrow> string option \<Rightarrow> world
    \<Rightarrow> response promise \<times> world" where
  "wallet_GET apiKey addressParam chainParam w =
     (if missing apiKey then (Resolves (error_response ''Missing ALLIUM_API_KEY'' 500), w)
      else if missing addressParam then (Resolves (error_response ''Missing address parameter'' 400), w)
      else
        (let address = the addressParam;
             chain = or_default chainParam ''ethereum'';
             cacheUrl = wallet_cacheUrl address chain;
             (cached, w1) = await_cfCacheMatch cacheUrl w
         in case cached of
              Rejects err \<Rightarrow> (Rejects err, w1)
            | Resolves c \<Rightarrow>
                if truthy c then (Resolves \<lparr>status = 200, body = c, headers = wallet_headers\<rparr>, w1)
                else
                  (let (result, w2) = await_dedup (wallet_key address chain)
                         (runQueryAndWait WALLET_QUERY_ID (the apiKey) 60000
                            [(''wallet_address'', toLowerCase address), (''chain'', chain)]) w1
                   in case result of
                        Rejects err \<Rightarrow> (Resolves (error_response (error_message err) 500), w2)
                      | Resolves res \<Rightarrow>
                          (case wallet_rows res of
                             JArr (row # rows) \<Rightarrow>
                               (case aggregate address chain (row # rows) [] of
                                  Inl err \<Rightarrow> (Resolves (error_response (error_message err) 500), w2)
                                | Inr cpMap \<Rightarrow>
                                    (let response = wallet_data address chain (counterparties_of chain cpMap);
                                         (u, w3) = await_cfCachePut cacheUrl response 3600 w2
                                     in case u of
                                          Rejects err \<Rightarrow> (Resolves (error_response (error_message err) 500), w3)
                                        | Resolves u' \<Rightarrow>
                                            (Resolves \<lparr>status = 200, body = response,
                                                        headers = wallet_headers\<rparr>, w3)))
                           | _ \<Rightarrow> (Resolves (json_response (wallet_data address chain [])), w2)))))"

subsection \<open>Prefetch\<close>

definition DEFAULT_WALLET :: string where
  "DEFAULT_WALLET = ''0xdbf5e9c5206d0db70a90108bf936da60221dc080''"

text \<open>
  \<^verbatim>\<open>
  const now = new Date();
  const endSnapped = new Date(Math.floor(now.getTime() / (3600 * 1000)) * 3600 * 1000);
  // Default flows: last 24h
  const flowsStart = new Date(endSnapped.getTime() - 24 * 3600 * 1000);
  const flowsParams = {
    start_date: snapToHour(flowsStart.toISOString().replace("T", " ").slice(0, 19)),
    end_date: snapToHour(endSnapped.toISOString().replace("T", " ").slice(0, 19)),
  };
  // Default bridges: last 1h
  const bridgesStart = new Date(endSnapped.getTime() - 3600 * 1000);
  const bridgesParams = { ... the same with bridgesStart ... };
  \<close>
\<close>

definition prefetch_flowsParams :: "int \<Rightarrow> string \<times> string" where
  "prefetch_flowsParams now =
     (let endSnapped = hour_floor now;
          flowsStart = endSnapped - 24 * 3600 * 1000
      in (snapToHour (iso_timestamp flowsStart), snapToHour (iso_timestamp endSnapped)))"

definition prefetch_bridgesParams :: "int \<Rightarrow> string \<times> string" where
  "prefetch_bridgesParams now =
     (let endSnapped = hour_floor now;
          bridgesStart = endSnapped - 3600 * 1000
      in (snapToHour (iso_timestamp bridgesStart), snapToHour (iso_timestamp endSnapped)))"

text \<open>
  The flows and the bridges job (the bridges job with its own URL, key, query and a wait
  of 30000 ms):
  \<^verbatim>\<open>
  (async () => {
    if (await cfCacheMatch(flowsCacheUrl)) return "flows (cached)";
    const result = await dedup(flowsKey, () =>
      runQueryAndWait(FLOWS_QUERY_ID, apiKey, 300000, flowsParams));
    await cfCachePut(flowsCacheUrl, result, flowsTtlSec);
    return "flows";
  })()
  \<close>
\<close>

definition prefetch_range_job :: "string \<Rightarrow> string \<Rightarrow> int \<Rightarrow> string \<Rightarrow> string \<times> string \<Rightarrow> world
    \<Rightarrow> string promise \<times> world" where
  "prefetch_range_job path queryId maxWaitMs apiKey params w =
     (let cacheUrl = range_cacheUrl path params;
          key = cacheKey compare_codes queryId (param_entries params);
          ttlSec = ttlSec_of (ttlForRange (fst params) (snd params));
          (cached, w1) = await_cfCacheMatch cacheUrl w
      in case cached of
           Rejects err \<Rightarrow> (Rejects err, w1)
         | Resolves c \<Rightarrow>
             if truthy c then (Resolves (path @ '' (cached)''), w1)
             else
               (let (result, w2) = await_dedup key
                      (runQueryAndWait queryId apiKey maxWaitMs (param_entries params)) w1
                in case result of
                     Rejects err \<Rightarrow> (Rejects err, w2)
                   | Resolves r \<Rightarrow>
                       (let (u, w3) = await_cfCachePut cacheUrl r ttlSec w2
                        in case u of
                             Rejects err \<Rightarrow> (Rejects err, w3)
                           | Resolves u' \<Rightarrow> (Resolves path, w3))))"

text \<open>
  The wallet job:
  \<^verbatim>\<open>
  const walletCacheUrl = `https://cache.internal/api/wallet?address=${DEFAULT_WALLET}&chain=ethereum`;
  const walletKey = `wallet:${DEFAULT_WALLET}:ethereum`;
  ...
  (async () => {
    if (await cfCacheMatch(walletCacheUrl)) return "wallet (cached)";
    const result = await dedup(walletKey, () =>
      runQueryAndWait(WALLET_QUERY_ID, apiKey, 60000, {
        wallet_address: DEFAULT_WALLET, chain: "ethereum" }));
    // Note: wallet route processes raw result into WalletData.
    // Here we cache the raw Allium result; the wallet route will
    // still need to process it. For the wallet, the route itself
    // caches the processed result separately.
    return "wallet";
  })()
  \<close>
\<close>

definition prefetch_walletCacheUrl :: string where
  "prefetch_walletCacheUrl =
     ''https://cache.internal/api/wallet?address='' @ DEFAULT_WALLET @ ''&chain=ethereum''"

definition prefetch_walletKey :: string where
  "prefetch_walletKey = ''wallet:'' @ DEFAULT_WALLET @ '':ethereum''"

definition prefetch_wallet_job :: "string \<Rightarrow> world \<Rightarrow> string promise \<times> world" where
  "prefetch_wallet_job apiKey w =
     (let (cached, w1) = await_cfCacheMatch prefetch_walletCacheUrl w
      in case cached of
           Rejects err \<Rightarrow> (Rejects err, w1)
         | Resolves c \<Rightarrow>
             if truthy c then (Resolves ''wallet (cached)'', w1)
             else
               (let (result, w2) = await_dedup prefetch_walletKey
                      (runQueryAndWait WALLET_QUERY_ID apiKey 60000
                         [(''wallet_address'', DEFAULT_WALLET), (''chain'', ''ethereum'')]) w1
                in case result of
                     Rejects err \<Rightarrow> (Rejects err, w2)
                   | Resolves r \<Rightarrow> (Resolves ''wallet'', w2)))"

text \<open>
  \<^verbatim>\<open>
  const results = await Promise.allSettled(jobs);
  const summary = results.map((r) => ({
    status: r.status,
    result: r.status === "fulfilled" ? r.value : String(r.reason),
  }));
  return NextResponse.json({ prefetched: summary });
  \<close>
  \<^verbatim>\<open>String(err)\<close> of an \<^verbatim>\<open>Error\<close> is its name and message.
\<close>

definition summary_of :: "string promise \<Rightarrow> jsval" where
  "summary_of r =
     (case r of
        Resolves v \<Rightarrow> JObj [(''status'', JStr ''fulfilled''), (''result'', JStr v)]
      | Rejects (ErrorObj m) \<Rightarrow> JObj [(''status'', JStr ''rejected''), (''result'', JStr (''Error: '' @ m))]
      | Rejects (NonError s) \<Rightarrow> JObj [(''status'', JStr ''rejected''), (''result'', JStr s)])"

text \<open>
  The three jobs touch three different cache URLs and three different coalescer keys;
  they are run here one after the other, in the order of the array.
\<close>

definition prefetch_GET :: "string option \<Rightarrow> int \<Rightarrow> world \<Rightarrow> response promise \<times> world" where
  "prefetch_GET apiKey now w =
     (if missing apiKey then (Resolves (error_response ''Missing ALLIUM_API_KEY'' 500), w)
      else
        (let (r1, w1) = prefetch_range_job ''flows'' FLOWS_QUERY_ID 300000 (the apiKey)
                          (prefetch_flowsParams now) w;
             (r2, w2) = prefetch_range_job ''bridges'' BRIDGE_QUERY_ID 30000 (the apiKey)
                          (prefetch_bridgesParams now) w1;
             (r3, w3) = prefetch_wallet_job (the apiKey) w2
         in (Resolves (json_response (JObj [(''prefetched'', JArr (map summary_of [r1, r2, r3]))])), w3)))"

text \<open>The effects a handler added to the trace, and the cache writes among them.\<close>

definition is_put :: "effect \<Rightarrow> bool" where
  "is_put e = (case e of Cache_put url data ttl \<Rightarrow> True | _ \<Rightarrow> False)"

definition puts :: "world \<Rightarrow> effect list" where
  "puts w = filter is_put (trace w)"

text \<open>
  What \<^verbatim>\<open>await dedup(key, () => runQueryAndWait(queryId, ..., params))\<close> gives in a world:
  the outcome of the pending operation when there is one for the key, of a new upstream
  operation otherwise.
\<close>

definition awaited :: "world \<Rightarrow> string \<Rightarrow> string \<Rightarrow> (string \<times> string) list \<Rightarrow> jsval promise" where
  "awaited w key queryId params =
     (case map_of (inflight_now w) key of
        Some existing \<Rightarrow> existing
      | None \<Rightarrow> upstream w queryId params)"

subsection \<open>The data-serving routes together\<close>

text \<open>
  The framework calls the handler of the route a request names. For a request, the URL
  its handler looks up in the edge cache, and the outcome of the upstream operation it
  waits for on a miss, are the expressions of the handlers above.
\<close>

datatype request =
    Flows "string option" "string option"
  | Bridges "string option" "string option"
  | Wallet string "string option"

definition serve :: "string option \<Rightarrow> request \<Rightarrow> int \<Rightarrow> world \<Rightarrow> response promise \<times> world" where
  "serve apiKey req now w =
     (case req of
        Flows startDate endDate \<Rightarrow> flows_GET apiKey startDate endDate now w
      | Bridges startDate endDate \<Rightarrow> bridges_GET apiKey startDate endDate now w
      | Wallet address chain \<Rightarrow> wallet_GET apiKey (Some address) chain w)"

definition cacheUrl_of :: "request \<Rightarrow> int \<Rightarrow> string" where
  "cacheUrl_of req now =
     (case req of
        Flows startDate endDate \<Rightarrow> range_cacheUrl ''flows'' (flows_params startDate endDate now)
      | Bridges startDate endDate \<Rightarrow> range_cacheUrl ''bridges'' (bridges_params startDate endDate now)
      | Wallet address chain \<Rightarrow> wallet_cacheUrl address (or_default chain ''ethereum''))"

definition operation_of :: "world \<Rightarrow> request \<Rightarrow> int \<Rightarrow> jsval promise" where
  "operation_of w req now =
     (case req of
        Flows startDate endDate \<Rightarrow>
          (let params = param_entries (flows_params startDate endDate now)
           in awaited w (cacheKey compare_codes FLOWS_QUERY_ID params) FLOWS_QUERY_ID params)
      | Bridges startDate endDate \<Rightarrow>
          (let params = param_entries (bridges_params startDate endDate now)
           in awaited w (cacheKey compare_codes BRIDGE_QUERY_ID params) BRIDGE_QUERY_ID params)
      | Wallet address chain \<Rightarrow>
          awaited w (wallet_key address (or_default chain ''ethereum'')) WALLET_QUERY_ID
            [(''wallet_address'', toLowerCase address), (''chain'', or_default chain ''ethereum'')])"

text \<open>The edge cache has no usable entry for the request: the handler goes to the upstream.\<close>

definition cache_miss :: "world \<Rightarrow> request \<Rightarrow> int \<Rightarrow> bool" where
  "cache_miss w req now =
     (case cfCacheMatch (cacheUrl_of req now) (edge w) of
        Resolves c \<Rightarrow> \<not> truthy c
      | Rejects err \<Rightarrow> False)"

text \<open>
  A handler's answer to a failed upstream operation: the body \<^verbatim>\<open>{ error: message }\<close> with
  status 500, the edge cache as it was and no call of \<open>cfCachePut\<close>.
\<close>

definition failure_reported :: "thrown \<Rightarrow> world \<Rightarrow> response promise \<times> world \<Rightarrow> bool" where
  "failure_reported err w out =
     (fst out = Resolves \<lparr>status = 500, body = JObj [(''error'', JStr (error_message err))], headers = []\<rparr>
      \<and> edge (snd out) = edge w \<and> puts (snd out) = puts w)"

text \<open>Worlds for the examples: an empty, working edge cache and an upstream with one outcome.\<close>

definition empty_store :: edge_store where
  "empty_store = \<lparr>api = Default_cache, match_rejects = (\<lambda>url. None), put_rejects = (\<lambda>url. None),
                  entries = []\<rparr>"

definition world_with :: "jsval promise \<Rightarrow> world" where
  "world_with outcome = \<lparr>edge = empty_store, inflight_now = [], upstream = (\<lambda>queryId params. outcome),
                         trace = []\<rparr>"

text \<open>A wallet request names an address (without one the handler answers 400 at once).\<close>

definition addressed :: "request \<Rightarrow> bool" where
  "addressed req = (case req of Wallet address chain \<Rightarrow> address \<noteq> [] | _ \<Rightarrow> True)"

text \<open>\<^verbatim>\<open>!Array.isArray(rows) || rows.length === 0\<close>\<close>

definition no_rows :: "jsval \<Rightarrow> bool" where
  "no_rows rows = (case rows of JArr (row # rest) \<Rightarrow> False | _ \<Rightarrow> True)"

section \<open>The request coalescer\<close>

text \<open>
  \<^verbatim>\<open>
  const inflight = new Map<string, Promise<unknown>>();

  export async function dedup<T>(key: string, fetcher: () => Promise<T>): Promise<T> {
    const existing = inflight.get(key);
    if (existing) {
      return existing as Promise<T>;
    }
    const promise = fetcher().then((result) => {
      inflight.delete(key);
      return result;
    }).catch((err) => {
      inflight.delete(key);
      throw err;
    });
    inflight.set(key, promise);
    return promise;
  }
  \<close>
  One thread runs the handlers; it is interrupted only at an \<^verbatim>\<open>await\<close>, and the callbacks
  of a settled promise run later, each as a task of its own. The model is the state of the
  module and of the promises it made, and the events that change it.

  A call that finds no entry makes three promises, a \<open>flight\<close>: the one \<^verbatim>\<open>fetcher()\<close>
  returned (\<open>operation\<close>), the one \<^verbatim>\<open>.then(...)\<close> made of it (\<open>after_then\<close>), and the one
  \<^verbatim>\<open>.catch(...)\<close> made of that (\<open>registered\<close>), which is the promise put in the table.
  Each is pending (\<open>None\<close>) or settled with its outcome. A fetcher is named by a number;
  it is the operation the environment runs, and settles when it likes.
\<close>

record flight =
  flight_key :: string
  fetcher :: nat
  operation :: "jsval promise option"
  after_then :: "jsval promise option"
  registered :: "jsval promise option"

text \<open>
  The table maps a key to the promise registered for it, named by the number of its flight.
  Every call of the \<^verbatim>\<open>async\<close> function \<open>dedup\<close> gives its caller a promise of its own
  (a \<open>handle\<close>), resolved with the promise the function returns: the handle records which
  flight's registered promise that is, and its own state.
\<close>

record coalescer =
  inflight :: "(string \<times> nat) list"
  flights :: "flight list"
  handles :: "(nat \<times> jsval promise option) list"

definition init :: coalescer where
  "init = \<lparr>inflight = [], flights = [], handles = []\<rparr>"

text \<open>\<^verbatim>\<open>return p\<close> in the \<^verbatim>\<open>async\<close> function: a new handle, bound to the promise \<open>p\<close>.\<close>

definition return_promise :: "nat \<Rightarrow> coalescer \<Rightarrow> nat \<times> coalescer" where
  "return_promise p s = (length (handles s), s\<lparr>handles := handles s @ [(p, None)]\<rparr>)"

text \<open>
  \<open>dedup\<close> itself. Nothing in it waits: the lookup, the call of the fetcher and the
  registration are one step. The result is the caller's handle.
\<close>

definition dedup :: "string \<Rightarrow> nat \<Rightarrow> coalescer \<Rightarrow> nat \<times> coalescer" where
  "dedup key f s =
     (case map_of (inflight s) key of
        Some existing \<Rightarrow> return_promise existing s
      | None \<Rightarrow>
          (let promise = length (flights s);
               s1 = s\<lparr>flights := flights s @ [\<lparr>flight_key = key, fetcher = f, operation = None,
                                               after_then = None, registered = None\<rparr>]\<rparr>;
               s2 = s1\<lparr>inflight := AList.update key promise (inflight s1)\<rparr>
           in return_promise promise s2))"

text \<open>
  The reactions. \<^verbatim>\<open>.then(cb)\<close>: once the operation is fulfilled the callback deletes the
  key and passes the result on; a rejection passes through without the callback.
  \<^verbatim>\<open>.catch(cb)\<close>: a fulfilment passes through; on a rejection the callback deletes the key
  and throws the error again. A reaction whose source is still pending does nothing, and
  a promise settles once.
\<close>

definition run_then :: "nat \<Rightarrow> coalescer \<Rightarrow> coalescer" where
  "run_then c s =
     (if c < length (flights s) \<and> after_then (flights s ! c) = None then
        (let fl = flights s ! c in
         case operation fl of
           None \<Rightarrow> s
         | Some (Resolves result) \<Rightarrow>
             s\<lparr>inflight := AList.delete (flight_key fl) (inflight s),
               flights := (flights s)[c := fl\<lparr>after_then := Some (Resolves result)\<rparr>]\<rparr>
         | Some (Rejects err) \<Rightarrow>
             s\<lparr>flights := (flights s)[c := fl\<lparr>after_then := Some (Rejects err)\<rparr>]\<rparr>)
      else s)"

definition run_catch :: "nat \<Rightarrow> coalescer \<Rightarrow> coalescer" where
  "run_catch c s =
     (if c < length (flights s) \<and> registered (flights s ! c) = None then
        (let fl = flights s ! c in
         case after_then fl of
           None \<Rightarrow> s
         | Some (Resolves result) \<Rightarrow>
             s\<lparr>flights := (flights s)[c := fl\<lparr>registered := Some (Resolves result)\<rparr>]\<rparr>
         | Some (Rejects err) \<Rightarrow>
             s\<lparr>inflight := AList.delete (flight_key fl) (inflight s),
               flights := (flights s)[c := fl\<lparr>registered := Some (Rejects err)\<rparr>]\<rparr>)
      else s)"

definition registered_at :: "coalescer \<Rightarrow> nat \<Rightarrow> jsval promise option" where
  "registered_at s c = (if c < length (flights s) then registered (flights s ! c) else None)"

definition run_return :: "nat \<Rightarrow> coalescer \<Rightarrow> coalescer" where
  "run_return h s =
     (if h < length (handles s) \<and> snd (handles s ! h) = None then
        (case registered_at s (fst (handles s ! h)) of
           None \<Rightarrow> s
         | Some outcome \<Rightarrow> s\<lparr>handles := (handles s)[h := (fst (handles s ! h), Some outcome)]\<rparr>)
      else s)"

text \<open>The environment settles the operation of a flight, once.\<close>

definition settle :: "nat \<Rightarrow> jsval promise \<Rightarrow> coalescer \<Rightarrow> coalescer" where
  "settle c outcome s =
     (if c < length (flights s) \<and> operation (flights s ! c) = None
      then s\<lparr>flights := (flights s)[c := (flights s ! c)\<lparr>operation := Some outcome\<rparr>]\<rparr>
      else s)"

text \<open>
  What can happen, in any order: a handler calls \<open>dedup\<close>, an operation settles, or one
  of the pending reactions runs.
\<close>

datatype event =
    Call string nat
  | Settle nat "jsval promise"
  | Run_then nat
  | Run_catch nat
  | Run_return nat

fun step :: "event \<Rightarrow> coalescer \<Rightarrow> coalescer" where
  "step (Call key f) s = snd (dedup key f s)"
| "step (Settle c outcome) s = settle c outcome s"
| "step (Run_then c) s = run_then c s"
| "step (Run_catch c) s = run_catch c s"
| "step (Run_return h) s = run_return h s"

fun run :: "event list \<Rightarrow> coalescer \<Rightarrow> coalescer" where
  "run [] s = s"
| "run (e # es) s = run es (step e s)"

text \<open>
  The task queue run until it is empty: every reaction of every flight, then of every
  handle. (A reaction only looks at promises made before its own.)
\<close>

definition pending_tasks :: "coalescer \<Rightarrow> event list" where
  "pending_tasks s =
     concat (map (\<lambda>c. [Run_then c, Run_catch c]) [0..<length (flights s)])
     @ map Run_return [0..<length (handles s)]"

definition drain :: "coalescer \<Rightarrow> coalescer" where
  "drain s = run (pending_tasks s) s"

text \<open>What is observed of a state.\<close>

definition invocations :: "string \<Rightarrow> coalescer \<Rightarrow> nat list" where
  "invocations key s = map fetcher (filter (\<lambda>fl. flight_key fl = key) (flights s))"

definition delivered :: "coalescer \<Rightarrow> nat \<Rightarrow> jsval promise option" where
  "delivered s h = (if h < length (handles s) then snd (handles s ! h) else None)"

definition operation_at :: "coalescer \<Rightarrow> nat \<Rightarrow> jsval promise option" where
  "operation_at s c = (if c < length (flights s) then operation (flights s ! c) else None)"

text \<open>The handles of the calls that wait for flight \<open>c\<close>.\<close>

definition waiting :: "nat \<Rightarrow> coalescer \<Rightarrow> nat list" where
  "waiting c s = filter (\<lambda>h. fst (handles s ! h) = c) [0..<length (handles s)]"

definition is_call_of :: "string \<Rightarrow> event \<Rightarrow> bool" where
  "is_call_of key e = (case e of Call k f \<Rightarrow> k = key | _ \<Rightarrow> False)"

definition settles :: "nat \<Rightarrow> event \<Rightarrow> bool" where
  "settles c e = (case e of Settle c' outcome \<Rightarrow> c' = c | _ \<Rightarrow> False)"

text \<open>
  The states the module can be in. An entry of the table is the registered promise of a
  flight of that key, and a flight has its entry exactly as long as neither of its two
  callbacks has run; a settled promise has the outcome of the one it was made of.
\<close>

definition is_resolved :: "jsval promise option \<Rightarrow> bool" where
  "is_resolved st = (case st of Some (Resolves result) \<Rightarrow> True | _ \<Rightarrow> False)"

definition in_table :: "flight \<Rightarrow> bool" where
  "in_table fl = (registered fl = None \<and> \<not> is_resolved (after_then fl))"

definition passed_on :: "flight \<Rightarrow> bool" where
  "passed_on fl =
     ((after_then fl \<noteq> None \<longrightarrow> after_then fl = operation fl)
      \<and> (registered fl \<noteq> None \<longrightarrow> registered fl = after_then fl))"

definition consistent :: "coalescer \<Rightarrow> bool" where
  "consistent s =
     (distinct (map fst (inflight s))
      \<and> (\<forall>(k, c) \<in> set (inflight s). c < length (flights s) \<and> flight_key (flights s ! c) = k
             \<and> in_table (flights s ! c))
      \<and> (\<forall>c < length (flights s). in_table (flights s ! c)
             \<longrightarrow> map_of (inflight s) (flight_key (flights s ! c)) = Some c)
      \<and> (\<forall>fl \<in> set (flights s). passed_on fl)
      \<and> (\<forall>(c, st) \<in> set (handles s). c < length (flights s)
             \<and> (st \<noteq> None \<longrightarrow> st = registered (flights s ! c))))"

text \<open>The fetchers invoked so far, each with the key it was invoked under, in order.\<close>

definition started :: "coalescer \<Rightarrow> (string \<times> nat) list" where
  "started s = map (\<lambda>fl. (flight_key fl, fetcher fl)) (flights s)"

definition is_call :: "event \<Rightarrow> bool" where
  "is_call e = (case e of Call k f \<Rightarrow> True | _ \<Rightarrow> False)"

text \<open>
  A later state keeps what an earlier one had: the promises made stay, each bound as it
  was, and a settled promise keeps its outcome.
\<close>

definition keeps :: "'a option \<Rightarrow> 'a option \<Rightarrow> bool" where
  "keeps old new = (old \<noteq> None \<longrightarrow> new = old)"

definition flight_kept :: "flight \<Rightarrow> flight \<Rightarrow> bool" where
  "flight_kept fl fl' =
     (flight_key fl' = flight_key fl \<and> fetcher fl' = fetcher fl
      \<and> keeps (operation fl) (operation fl') \<and> keeps (after_then fl) (after_then fl')
      \<and> keeps (registered fl) (registered fl'))"

definition extends :: "coalescer \<Rightarrow> coalescer \<Rightarrow> bool" where
  "extends s t =
     (length (flights s) \<le> length (flights t)
      \<and> (\<forall>c < length (flights s). flight_kept (flights s ! c) (flights t ! c))
      \<and> length (handles s) \<le> length (handles t)
      \<and> (\<forall>h < length (handles s). fst (handles t ! h) = fst (handles s ! h)
            \<and> keeps (snd (handles s ! h)) (snd (handles t ! h))))"

section \<open>Properties of the TTL policy\<close>

text \<open>
  C4, as stated: for a normalized range whose span is 12 hours \<open>ttlForRange\<close> returns 3600.
  It does not: the function returns milliseconds. On the range of the specification's
  scenario A the span is 12 hours and the result is 3600000.
\<close>

theorem ttlForRange_seconds_counterexample:
  "spanHours ''2025-01-06 00:00:00'' ''2025-01-06 12:00:00'' = Some 12
   \<and> ttlForRange ''2025-01-06 00:00:00'' ''2025-01-06 12:00:00'' \<noteq> 3600"
  by code_simp

text \<open>
  C4, amended: \<open>ttlForRange\<close> returns its cache lifetime in milliseconds, 3600000 for a
  span of 12 hours, 7200000 for 48 hours and 21600000 for 200 hours; the number of seconds
  the routes derive from it with \<^verbatim>\<open>Math.round(ttl / 1000)\<close> is 3600, 7200 and 21600.
\<close>

theorem ttlForRange_milliseconds:
  assumes "spanHours s1 e1 = Some 12" and "spanHours s2 e2 = Some 48"
    and "spanHours s3 e3 = Some 200"
  shows "ttlForRange s1 e1 = 3600000 \<and> ttlSec_of (ttlForRange s1 e1) = 3600
       \<and> ttlForRange s2 e2 = 7200000 \<and> ttlSec_of (ttlForRange s2 e2) = 7200
       \<and> ttlForRange s3 e3 = 21600000 \<and> ttlSec_of (ttlForRange s3 e3) = 21600"
  using assms by (simp add: ttlForRange_def ttlSec_of_def Math_round_def)

theorem ttlForRange_milliseconds_witness:
  "spanHours ''2025-01-06 00:00:00'' ''2025-01-06 12:00:00'' = Some 12
   \<and> spanHours ''2025-01-06 00:00:00'' ''2025-01-08 00:00:00'' = Some 48
   \<and> spanHours ''2025-01-01 00:00:00'' ''2025-01-09 08:00:00'' = Some 200
   \<and> ttlForRange ''2025-01-06 00:00:00'' ''2025-01-06 12:00:00'' = 3600000
   \<and> ttlSec_of (ttlForRange ''2025-01-06 00:00:00'' ''2025-01-06 12:00:00'') = 3600
   \<and> ttlForRange ''2025-01-06 00:00:00'' ''2025-01-08 00:00:00'' = 7200000
   \<and> ttlSec_of (ttlForRange ''2025-01-06 00:00:00'' ''2025-01-08 00:00:00'') = 7200
   \<and> ttlForRange ''2025-01-01 00:00:00'' ''2025-01-09 08:00:00'' = 21600000
   \<and> ttlSec_of (ttlForRange ''2025-01-01 00:00:00'' ''2025-01-09 08:00:00'') = 21600"
proof -
  have h1: "spanHours ''2025-01-06 00:00:00'' ''2025-01-06 12:00:00'' = Some 12"
    by code_simp
  have h2: "spanHours ''2025-01-06 00:00:00'' ''2025-01-08 00:00:00'' = Some 48"
    by code_simp
  have h3: "spanHours ''2025-01-01 00:00:00'' ''2025-01-09 08:00:00'' = Some 200"
    by code_simp
  from ttlForRange_milliseconds [OF h1 h2 h3] h1 h2 h3 show ?thesis
    by blast
qed

section \<open>Properties of the fingerprint\<close>













lemma localeCompare_plain:
  "\<forall>c \<in> set a. \<not> ignorable c \<Longrightarrow> \<forall>c \<in> set b. \<not> ignorable c \<Longrightarrow> localeCompare a b = compare_codes a b"
  by (simp add: localeCompare_def)





section \<open>Properties of the edge cache\<close>

lemma cfCacheMatch_unavailable: "api e \<noteq> Default_cache \<Longrightarrow> cfCacheMatch url e = Resolves JNull"
  by (cases "api e") (simp_all add: cfCacheMatch_def getCfCache_def)

lemma cfCacheMatch_match_rejects: "match_rejects e url = Some err \<Longrightarrow> cfCacheMatch url e = Resolves JNull"
  by (simp add: cfCacheMatch_def cache_match_def)

lemma cfCachePut_never_rejects: "fst (cfCachePut url data ttlSec e) = Resolves ()"
  by (simp add: cfCachePut_def split: option.splits)

lemma cfCacheMatch_rejects_iff:
  "cfCacheMatch url e = Rejects err \<longleftrightarrow>
     api e = Default_cache \<and> match_rejects e url = None \<and> map_of (entries e) url = Some (Broken err)"
  by (cases "api e")
     (auto simp: cfCacheMatch_def getCfCache_def cache_match_def response_json_def
           split: option.splits stored.splits)

text \<open>
  C3: no error of the store escapes \<open>cfCacheMatch\<close> or \<open>cfCachePut\<close>. That holds when the
  store is unavailable, when \<^verbatim>\<open>cache.match\<close> or \<^verbatim>\<open>cache.put\<close> rejects (the three lemmas
  above), but not for a failure while the cached value is read back: with a stored
  response whose body cannot be read, \<^verbatim>\<open>res.json()\<close> rejects after the \<^verbatim>\<open>try\<close> block has
  returned it, and \<open>cfCacheMatch\<close> rejects with that error instead of giving \<^verbatim>\<open>null\<close>.
\<close>

theorem cfCacheMatch_rejection_escapes:
  "cfCacheMatch ''https://cache.internal/api/flows?start_date=2025-01-06 00:00:00&end_date=2025-01-06 12:00:00''
     \<lparr>api = Default_cache, match_rejects = (\<lambda>u. None), put_rejects = (\<lambda>u. None),
      entries = [(''https://cache.internal/api/flows?start_date=2025-01-06 00:00:00&end_date=2025-01-06 12:00:00'',
                  Broken (ErrorObj ''Unexpected end of JSON input''))]\<rparr>
   = Rejects (ErrorObj ''Unexpected end of JSON input'')"
  by (simp add: cfCacheMatch_def getCfCache_def cache_match_def response_json_def)

section \<open>Properties of the routes\<close>

lemma hour_floor_div: "hour_floor now = now div 3600000 * 3600000"
proof -
  have "\<lfloor>real_of_int now / (3600 * 1000)\<rfloor> = now div 3600000"
    using floor_divide_of_int_eq [of now 3600000, where ?'a = real] by simp
  then show ?thesis by (simp add: hour_floor_def)
qed

lemma digit_char_code: "(of_char (digit_char d) :: nat) = nat (48 + d mod 10)"
proof -
  have "nat (48 + d mod 10) < 256" by simp
  then show ?thesis by (simp add: digit_char_def)
qed

lemma digit_char_not_T: "digit_char d \<noteq> CHR ''T''"
proof
  assume "digit_char d = CHR ''T''"
  then have "(of_char (digit_char d) :: nat) = of_char (CHR ''T'')" by simp
  then have "nat (48 + d mod 10) = 84" by (simp add: digit_char_code)
  then show False by simp
qed

lemma aligned_fields:
  fixes t :: int
  assumes "t mod 3600000 = 0"
  shows "(t mod 86400000) div 60000 mod 60 = 0" "(t mod 86400000) div 1000 mod 60 = 0"
proof -
  from assms have "3600000 dvd t" by (simp add: dvd_eq_mod_eq_0)
  then obtain k where k: "t = 3600000 * k" by (auto simp: dvd_def)
  have "t mod 86400000 = 3600000 * (k mod 24)"
    unfolding k using mult_mod_right [of 3600000 k 24] by simp
  then show "(t mod 86400000) div 60000 mod 60 = 0" "(t mod 86400000) div 1000 mod 60 = 0"
    by simp_all
qed

lemma iso_timestamp_shape:
  "iso_timestamp t = (let days = t div 86400000; ms = t mod 86400000; (y, m, d) = civil_from_days days
     in pad4 y @ ''-'' @ pad2 m @ ''-'' @ pad2 d @ '' '' @ pad2 (ms div 3600000) @ '':''
        @ pad2 (ms div 60000 mod 60) @ '':'' @ pad2 (ms div 1000 mod 60))"
  by (simp add: iso_timestamp_def toISOString_def Let_def pad4_def pad2_def pad3_def digit_char_not_T
      split: prod.splits)



lemma snapToHour_aligned:
  assumes "t mod 3600000 = 0"
  shows "snapToHour (iso_timestamp t) = iso_timestamp t"
proof -
  obtain y m d where c: "civil_from_days (t div 86400000) = (y, m, d)"
    by (cases "civil_from_days (t div 86400000)") auto
  have z: "pad2 0 = ''00''"
    by code_simp
  show ?thesis
    by (simp add: iso_timestamp_shape snapToHour_def Let_def c aligned_fields [OF assms] z)
       (simp add: pad4_def pad2_def)
qed


lemma missing_Some: "missing (Some a) \<longleftrightarrow> a = []"
  by (simp add: missing_def)

lemma await_dedup_runQueryAndWait:
  "await_dedup key (runQueryAndWait q k t ps) w =
     (awaited w key q ps,
      w\<lparr>trace := trace w @ [case map_of (inflight_now w) key of
                               Some x \<Rightarrow> Dedup_join key | None \<Rightarrow> Upstream_call q k t ps]\<rparr>)"
  by (simp add: await_dedup_def runQueryAndWait_def awaited_def split: option.splits)

lemma puts_append: "puts (w\<lparr>trace := trace w @ [e]\<rparr>) = puts w @ (if is_put e then [e] else [])"
  by (simp add: puts_def)

lemma is_put_simps:
  "\<not> is_put (Cache_match u)" "is_put (Cache_put u d t)" "\<not> is_put (Dedup_join k)"
  "\<not> is_put (Upstream_call q a m ps)"
  by (simp_all add: is_put_def)

lemma not_put_awaited:
  "\<not> is_put (case x of Some y \<Rightarrow> Dedup_join key | None \<Rightarrow> Upstream_call q k t ps)"
  by (simp add: is_put_def split: option.splits)

lemma awaited_trace [simp]: "awaited (w\<lparr>trace := t\<rparr>) key q ps = awaited w key q ps"
  by (simp add: awaited_def split: option.splits)

lemma await_cfCachePut_eq:
  "await_cfCachePut url d t w =
     (Resolves (), w\<lparr>edge := snd (cfCachePut url d t (edge w)), trace := trace w @ [Cache_put url d t]\<rparr>)"
  by (simp add: await_cfCachePut_def cfCachePut_def split: option.splits)

lemma range_route_failure:
  assumes "cfCacheMatch (range_cacheUrl path params) (edge w) = Resolves c" "\<not> truthy c"
    and "awaited w (cacheKey compare_codes q (param_entries params)) q (param_entries params) = Rejects err"
  shows "failure_reported err w (range_route path q t k params w)"
  using assms
  by (simp add: range_route_def await_cfCacheMatch_def await_dedup_runQueryAndWait Let_def
      failure_reported_def error_response_def puts_def not_put_awaited is_put_simps)

lemma range_route_puts:
  assumes "puts (snd (range_route path q t k params w)) \<noteq> puts w"
  shows "\<exists>r. awaited w (cacheKey compare_codes q (param_entries params)) q (param_entries params) = Resolves r"
  using assms
  by (auto simp: range_route_def await_cfCacheMatch_def await_dedup_runQueryAndWait Let_def
      await_cfCachePut_eq puts_def not_put_awaited is_put_simps split: promise.splits if_splits)


lemma wallet_failure:
  assumes "\<not> missing apiKey"
    and "cfCacheMatch (wallet_cacheUrl address (or_default chain ''ethereum'')) (edge w) = Resolves c"
    and "\<not> truthy c"
    and "awaited w (wallet_key address (or_default chain ''ethereum'')) WALLET_QUERY_ID
           [(''wallet_address'', toLowerCase address), (''chain'', or_default chain ''ethereum'')] = Rejects err"
    and "address \<noteq> []"
  shows "failure_reported err w (wallet_GET apiKey (Some address) chain w)"
  using assms
  by (simp add: wallet_GET_def missing_Some await_cfCacheMatch_def await_dedup_runQueryAndWait Let_def
      failure_reported_def error_response_def puts_def not_put_awaited is_put_simps)

lemma wallet_puts:
  assumes "puts (snd (wallet_GET apiKey (Some address) chain w)) \<noteq> puts w"
  shows "\<exists>res row rows. awaited w (wallet_key address (or_default chain ''ethereum'')) WALLET_QUERY_ID
           [(''wallet_address'', toLowerCase address), (''chain'', or_default chain ''ethereum'')] = Resolves res
         \<and> wallet_rows res = JArr (row # rows)"
  using assms
  by (auto simp: wallet_GET_def await_cfCacheMatch_def await_dedup_runQueryAndWait Let_def
      await_cfCachePut_eq puts_def not_put_awaited is_put_simps
      split: promise.splits if_splits jsval.splits list.splits sum.splits)

lemma wallet_no_rows:
  assumes "\<not> missing apiKey" "address \<noteq> []"
    and "cfCacheMatch (wallet_cacheUrl address (or_default chain ''ethereum'')) (edge w) = Resolves c"
    and "\<not> truthy c"
    and "awaited w (wallet_key address (or_default chain ''ethereum'')) WALLET_QUERY_ID
           [(''wallet_address'', toLowerCase address), (''chain'', or_default chain ''ethereum'')] = Resolves res"
    and "\<forall>row rows. wallet_rows res \<noteq> JArr (row # rows)"
  shows "fst (wallet_GET apiKey (Some address) chain w)
           = Resolves \<lparr>status = 200, body = wallet_data address (or_default chain ''ethereum'') [], headers = []\<rparr>
         \<and> edge (snd (wallet_GET apiKey (Some address) chain w)) = edge w
         \<and> puts (snd (wallet_GET apiKey (Some address) chain w)) = puts w"
  using assms
  by (auto simp: wallet_GET_def missing_Some await_cfCacheMatch_def await_dedup_runQueryAndWait Let_def
      json_response_def puts_def not_put_awaited is_put_simps
      split: jsval.splits list.splits)


lemma serve_failure:
  assumes "\<not> missing apiKey" "addressed req" "cache_miss w req now"
    and "operation_of w req now = Rejects err"
  shows "failure_reported err w (serve apiKey req now w)"
proof (cases req)
  case (Flows s e)
  with assms show ?thesis
    by (auto simp: serve_def flows_GET_def cache_miss_def cacheUrl_of_def operation_of_def Let_def
        split: promise.splits intro: range_route_failure)
next
  case (Bridges s e)
  with assms show ?thesis
    by (auto simp: serve_def bridges_GET_def cache_miss_def cacheUrl_of_def operation_of_def Let_def
        split: promise.splits intro: range_route_failure)
next
  case (Wallet a c)
  with assms show ?thesis
    by (auto simp: serve_def cache_miss_def cacheUrl_of_def operation_of_def addressed_def
        split: promise.splits intro: wallet_failure)
qed

lemma serve_puts:
  assumes "puts (snd (serve apiKey req now w)) \<noteq> puts w"
  shows "\<exists>r. operation_of w req now = Resolves r"
proof (cases req)
  case (Flows s e)
  with assms show ?thesis
    by (auto simp: serve_def flows_GET_def operation_of_def Let_def split: if_splits
        dest: range_route_puts)
next
  case (Bridges s e)
  with assms show ?thesis
    by (auto simp: serve_def bridges_GET_def operation_of_def Let_def split: if_splits
        dest: range_route_puts)
next
  case (Wallet a c)
  with assms show ?thesis
    by (auto simp: serve_def operation_of_def dest: wallet_puts)
qed

lemma prefetch_range_job_failure:
  assumes "cfCacheMatch (range_cacheUrl path params) (edge w) = Resolves c" "\<not> truthy c"
    and "awaited w (cacheKey compare_codes q (param_entries params)) q (param_entries params) = Rejects err"
  shows "fst (prefetch_range_job path q t k params w) = Rejects err
       \<and> edge (snd (prefetch_range_job path q t k params w)) = edge w
       \<and> puts (snd (prefetch_range_job path q t k params w)) = puts w"
  using assms
  by (simp add: prefetch_range_job_def await_cfCacheMatch_def await_dedup_runQueryAndWait Let_def
      puts_def not_put_awaited is_put_simps)

lemma prefetch_range_job_puts:
  assumes "puts (snd (prefetch_range_job path q t k params w)) \<noteq> puts w"
  shows "\<exists>r. awaited w (cacheKey compare_codes q (param_entries params)) q (param_entries params) = Resolves r"
  using assms
  by (auto simp: prefetch_range_job_def await_cfCacheMatch_def await_dedup_runQueryAndWait Let_def
      await_cfCachePut_eq puts_def not_put_awaited is_put_simps split: promise.splits if_splits)

lemma prefetch_wallet_job_frame:
  "edge (snd (prefetch_wallet_job k w)) = edge w \<and> puts (snd (prefetch_wallet_job k w)) = puts w"
  by (simp add: prefetch_wallet_job_def await_cfCacheMatch_def await_dedup_runQueryAndWait Let_def
      puts_def not_put_awaited is_put_simps split: promise.splits)

lemma prefetch_GET_status:
  "\<not> missing apiKey \<Longrightarrow> \<exists>summary. fst (prefetch_GET apiKey now w)
      = Resolves \<lparr>status = 200, body = JObj [(''prefetched'', JArr summary)], headers = []\<rparr>"
  by (simp add: prefetch_GET_def Let_def json_response_def split: prod.splits)

text \<open>
  C9: a wallet request with the API key configured and no address is answered with status
  400 and the body \<^verbatim>\<open>{ error: "Missing address parameter" }\<close>. The world is returned as it
  was, trace included: no upstream operation, no cache read and no cache write took place.
\<close>

theorem wallet_missing_address:
  assumes "\<not> missing apiKey" and "missing address"
  shows "wallet_GET apiKey address chain w
    = (Resolves \<lparr>status = 400, body = JObj [(''error'', JStr ''Missing address parameter'')],
                   headers = []\<rparr>, w)"
  using assms by (simp add: wallet_GET_def error_response_def)

theorem wallet_missing_address_witness:
  "\<not> missing (Some ''key'') \<and> missing None
   \<and> wallet_GET (Some ''key'') None (Some ''ethereum'') (world_with (Resolves (JArr [])))
     = (Resolves \<lparr>status = 400, body = JObj [(''error'', JStr ''Missing address parameter'')],
                    headers = []\<rparr>, world_with (Resolves (JArr [])))"
proof -
  have k: "\<not> missing (Some ''key'')" and a: "missing None"
    by (simp_all add: missing_def)
  from wallet_missing_address [OF k a] k a show ?thesis by blast
qed

lemma cfCacheMatch_other_url:
  "url' \<noteq> url \<Longrightarrow> cfCacheMatch url' (snd (cfCachePut url d t e)) = cfCacheMatch url' e"
  by (auto simp: cfCacheMatch_def cfCachePut_def getCfCache_def cache_match_def update_conv'
      split: option.splits cache_api.splits)

lemma range_url_not_wallet:
  "range_cacheUrl ''flows'' p \<noteq> wallet_cacheUrl a c" "range_cacheUrl ''bridges'' p \<noteq> wallet_cacheUrl a c"
  by (simp_all add: range_cacheUrl_def wallet_cacheUrl_def)

lemma prefetch_range_job_other_url:
  assumes "url' \<noteq> range_cacheUrl path params"
  shows "cfCacheMatch url' (edge (snd (prefetch_range_job path q t k params w))) = cfCacheMatch url' (edge w)"
  using assms
  by (auto simp: prefetch_range_job_def await_cfCacheMatch_def await_dedup_runQueryAndWait Let_def
      await_cfCachePut_eq cfCacheMatch_other_url split: promise.splits)

text \<open>
  C8: the wallet job of the prefetch route writes nothing to the edge cache. The job leaves
  the edge cache as it found it and never calls \<open>cfCachePut\<close>, whether its upstream
  operation succeeds or fails; and after the whole prefetch request the lookup the wallet
  route makes, for any address and chain, gives what it gave before (absent stays absent).
\<close>

theorem prefetch_wallet_job_writes_nothing:
  "edge (snd (prefetch_wallet_job apiKey w)) = edge w
   \<and> puts (snd (prefetch_wallet_job apiKey w)) = puts w
   \<and> cfCacheMatch (wallet_cacheUrl address chain) (edge (snd (prefetch_GET key now w)))
     = cfCacheMatch (wallet_cacheUrl address chain) (edge w)"
proof -
  have "cfCacheMatch (wallet_cacheUrl address chain) (edge (snd (prefetch_GET key now w)))
     = cfCacheMatch (wallet_cacheUrl address chain) (edge w)"
    by (simp add: prefetch_GET_def Let_def prefetch_wallet_job_frame prefetch_range_job_other_url
        range_url_not_wallet [symmetric] split: prod.splits)
       (metis prefetch_wallet_job_frame prefetch_range_job_other_url range_url_not_wallet snd_conv)
  with prefetch_wallet_job_frame [of apiKey w] show ?thesis by simp
qed

text \<open>
  C10, as stated: only non-empty processed results are ever written to the wallet cache key.
  They are not: when the upstream returns rows that are all self-references, the row list
  is not empty, every row is skipped, and the processed result with empty \<open>transactions\<close>
  and \<open>counterparties\<close> is written to the cache.
\<close>

theorem wallet_self_reference_cached_counterexample:
  "no_rows (JArr [JObj [(''COUNTERPARTY_ADDRESS'', JStr ''0xDBF5''), (''DIRECTION'', JStr ''sent'')]]) = False
   \<and> puts (snd (wallet_GET (Some ''key'') (Some ''0xdbf5'') None
        (world_with (Resolves (JArr [JObj [(''COUNTERPARTY_ADDRESS'', JStr ''0xDBF5''),
                                           (''DIRECTION'', JStr ''sent'')]])))))
     = [Cache_put ''https://cache.internal/api/wallet?address=0xdbf5&chain=ethereum''
          (JObj [(''address'', JStr ''0xdbf5''), (''chain'', JStr ''ethereum''),
                 (''transactions'', JArr []), (''counterparties'', JArr [])]) 3600]"
  by code_simp

text \<open>
  C10, amended: when the upstream query succeeds with zero rows (no array, or an empty one),
  the wallet route answers 200 with empty \<open>transactions\<close> and \<open>counterparties\<close>, leaves the
  edge cache as it was and does not call \<open>cfCachePut\<close>, so an identical request that
  follows misses the cache again; a cache write happens only when the upstream returned at
  least one row.
\<close>

theorem wallet_zero_rows_not_cached:
  assumes "\<not> missing apiKey" and "address \<noteq> []"
    and "cache_miss w (Wallet address chain) now"
    and "operation_of w (Wallet address chain) now = Resolves res"
  shows "(no_rows (wallet_rows res) \<longrightarrow>
            fst (wallet_GET apiKey (Some address) chain w)
              = Resolves \<lparr>status = 200,
                   body = JObj [(''address'', JStr address), (''chain'', JStr (or_default chain ''ethereum'')),
                                (''transactions'', JArr []), (''counterparties'', JArr [])],
                   headers = []\<rparr>
            \<and> edge (snd (wallet_GET apiKey (Some address) chain w)) = edge w
            \<and> puts (snd (wallet_GET apiKey (Some address) chain w)) = puts w
            \<and> cache_miss (snd (wallet_GET apiKey (Some address) chain w)) (Wallet address chain) now)
       \<and> (puts (snd (wallet_GET apiKey (Some address) chain w)) \<noteq> puts w \<longrightarrow> \<not> no_rows (wallet_rows res))"
proof -
  from assms(3) obtain c where c: "cfCacheMatch (wallet_cacheUrl address (or_default chain ''ethereum'')) (edge w) = Resolves c"
      "\<not> truthy c"
    by (auto simp: cache_miss_def cacheUrl_of_def split: promise.splits)
  from assms(4) have op: "awaited w (wallet_key address (or_default chain ''ethereum'')) WALLET_QUERY_ID
      [(''wallet_address'', toLowerCase address), (''chain'', or_default chain ''ethereum'')] = Resolves res"
    by (simp add: operation_of_def)
  have nr: "no_rows rows \<longleftrightarrow> (\<forall>row rest. rows \<noteq> JArr (row # rest))" for rows
    by (auto simp: no_rows_def split: jsval.splits list.splits)
  have 1: "no_rows (wallet_rows res) \<longrightarrow>
            fst (wallet_GET apiKey (Some address) chain w)
              = Resolves \<lparr>status = 200,
                   body = JObj [(''address'', JStr address), (''chain'', JStr (or_default chain ''ethereum'')),
                                (''transactions'', JArr []), (''counterparties'', JArr [])],
                   headers = []\<rparr>
            \<and> edge (snd (wallet_GET apiKey (Some address) chain w)) = edge w
            \<and> puts (snd (wallet_GET apiKey (Some address) chain w)) = puts w"
    using wallet_no_rows [OF assms(1,2) c op] by (simp add: nr wallet_data_def)
  moreover have "puts (snd (wallet_GET apiKey (Some address) chain w)) \<noteq> puts w \<longrightarrow> \<not> no_rows (wallet_rows res)"
    using wallet_puts [of apiKey address chain w] op by (auto simp: nr)
  moreover have "edge w' = edge w \<Longrightarrow> cache_miss w' (Wallet address chain) now" for w'
    using assms(3) by (simp add: cache_miss_def)
  ultimately show ?thesis by blast
qed

theorem wallet_zero_rows_not_cached_witness:
  "\<not> missing (Some ''key'') \<and> ''0xdbf5'' \<noteq> []
   \<and> cache_miss (world_with (Resolves (JObj [(''data'', JArr [])]))) (Wallet ''0xdbf5'' None) 0
   \<and> operation_of (world_with (Resolves (JObj [(''data'', JArr [])]))) (Wallet ''0xdbf5'' None) 0
       = Resolves (JObj [(''data'', JArr [])])
   \<and> no_rows (wallet_rows (JObj [(''data'', JArr [])]))
   \<and> fst (wallet_GET (Some ''key'') (Some ''0xdbf5'') None (world_with (Resolves (JObj [(''data'', JArr [])]))))
       = Resolves \<lparr>status = 200,
            body = JObj [(''address'', JStr ''0xdbf5''), (''chain'', JStr ''ethereum''),
                         (''transactions'', JArr []), (''counterparties'', JArr [])],
            headers = []\<rparr>
   \<and> puts (snd (wallet_GET (Some ''key'') (Some ''0xdbf5'') None (world_with (Resolves (JObj [(''data'', JArr [])])))))
       = puts (world_with (Resolves (JObj [(''data'', JArr [])])))"
proof -
  have k: "\<not> missing (Some ''key'')" and a: "''0xdbf5'' \<noteq> []"
    by (simp_all add: missing_def)
  have m: "cache_miss (world_with (Resolves (JObj [(''data'', JArr [])]))) (Wallet ''0xdbf5'' None) 0"
    by code_simp
  have o: "operation_of (world_with (Resolves (JObj [(''data'', JArr [])]))) (Wallet ''0xdbf5'' None) 0
       = Resolves (JObj [(''data'', JArr [])])"
    by code_simp
  have n: "no_rows (wallet_rows (JObj [(''data'', JArr [])]))"
    by code_simp
  have d: "or_default None ''ethereum'' = ''ethereum''"
    by (simp add: or_default_def)
  from wallet_zero_rows_not_cached [OF k a m o] n k a m o show ?thesis
    unfolding d by blast
qed

text \<open>
  C6: when the upstream operation fails (rejects or times out), every route that serves a
  query (flows, bridges, wallet) answers with the body \<^verbatim>\<open>{ error: message }\<close> and status
  500, leaves the edge cache as it was and does not call \<open>cfCachePut\<close>; and \<open>cfCachePut\<close>
  is called only after a successful upstream result, in these routes and in the jobs that
  warm the cache (the wallet job never calls it).
\<close>

theorem upstream_failure_no_cache_write:
  assumes "\<not> missing apiKey"
  shows "(addressed req \<and> cache_miss w req now \<and> operation_of w req now = Rejects err
            \<longrightarrow> fst (serve apiKey req now w)
                  = Resolves \<lparr>status = 500, body = JObj [(''error'', JStr (error_message err))],
                              headers = []\<rparr>
                \<and> edge (snd (serve apiKey req now w)) = edge w
                \<and> puts (snd (serve apiKey req now w)) = puts w)
       \<and> (puts (snd (serve apiKey req now w)) \<noteq> puts w \<longrightarrow> (\<exists>r. operation_of w req now = Resolves r))
       \<and> (puts (snd (prefetch_range_job path q t k params w)) \<noteq> puts w
            \<longrightarrow> (\<exists>r. awaited w (cacheKey compare_codes q (param_entries params)) q (param_entries params)
                       = Resolves r))
       \<and> puts (snd (prefetch_wallet_job k w)) = puts w"
  using serve_failure [OF assms, of req w now err] serve_puts [of apiKey req now w]
    prefetch_range_job_puts [of path q t k params w] prefetch_wallet_job_frame [of k w]
  unfolding failure_reported_def
  by blast

theorem upstream_failure_no_cache_write_witness:
  "\<not> missing (Some ''key'') \<and> addressed (Flows None None) \<and> addressed (Wallet ''0xdbf5'' None)
   \<and> cache_miss (world_with (Rejects (ErrorObj ''Query timed out''))) (Flows None None) 1736166872000
   \<and> operation_of (world_with (Rejects (ErrorObj ''Query timed out''))) (Flows None None) 1736166872000
       = Rejects (ErrorObj ''Query timed out'')
   \<and> fst (serve (Some ''key'') (Flows None None) 1736166872000 (world_with (Rejects (ErrorObj ''Query timed out''))))
       = Resolves \<lparr>status = 500, body = JObj [(''error'', JStr ''Query timed out'')], headers = []\<rparr>
   \<and> edge (snd (serve (Some ''key'') (Flows None None) 1736166872000
                  (world_with (Rejects (ErrorObj ''Query timed out'')))))
       = empty_store
   \<and> puts (snd (serve (Some ''key'') (Flows None None) 1736166872000
                  (world_with (Rejects (ErrorObj ''Query timed out'')))))
       = []
   \<and> cache_miss (world_with (Rejects (ErrorObj ''Query failed''))) (Wallet ''0xdbf5'' None) 1736166872000
   \<and> operation_of (world_with (Rejects (ErrorObj ''Query failed''))) (Wallet ''0xdbf5'' None) 1736166872000
       = Rejects (ErrorObj ''Query failed'')
   \<and> fst (serve (Some ''key'') (Wallet ''0xdbf5'' None) 1736166872000 (world_with (Rejects (ErrorObj ''Query failed''))))
       = Resolves \<lparr>status = 500, body = JObj [(''error'', JStr ''Query failed'')], headers = []\<rparr>
   \<and> edge (snd (serve (Some ''key'') (Wallet ''0xdbf5'' None) 1736166872000
                  (world_with (Rejects (ErrorObj ''Query failed'')))))
       = empty_store
   \<and> puts (snd (serve (Some ''key'') (Wallet ''0xdbf5'' None) 1736166872000
                  (world_with (Rejects (ErrorObj ''Query failed'')))))
       = []"
proof -
  have k: "\<not> missing (Some ''key'')" and a: "addressed (Flows None None)"
    and a': "addressed (Wallet ''0xdbf5'' None)"
    by (simp_all add: missing_def addressed_def)
  have m: "cache_miss (world_with (Rejects (ErrorObj ''Query timed out''))) (Flows None None) 1736166872000"
    by code_simp
  have o: "operation_of (world_with (Rejects (ErrorObj ''Query timed out''))) (Flows None None) 1736166872000
       = Rejects (ErrorObj ''Query timed out'')"
    by code_simp
  have m': "cache_miss (world_with (Rejects (ErrorObj ''Query failed''))) (Wallet ''0xdbf5'' None) 1736166872000"
    by code_simp
  have o': "operation_of (world_with (Rejects (ErrorObj ''Query failed''))) (Wallet ''0xdbf5'' None) 1736166872000
       = Rejects (ErrorObj ''Query failed'')"
    by code_simp
  have w: "edge (world_with outcome) = empty_store" "puts (world_with outcome) = []" for outcome
    by (simp_all add: world_with_def puts_def)
  have e: "error_message (ErrorObj msg) = msg" for msg
    by (simp add: error_message_def)
  from upstream_failure_no_cache_write [OF k, of "Flows None None"
      "world_with (Rejects (ErrorObj ''Query timed out''))" 1736166872000 "ErrorObj ''Query timed out''"]
    a m o
  have 1: "fst (serve (Some ''key'') (Flows None None) 1736166872000 (world_with (Rejects (ErrorObj ''Query timed out''))))
       = Resolves \<lparr>status = 500, body = JObj [(''error'', JStr ''Query timed out'')], headers = []\<rparr>
     \<and> edge (snd (serve (Some ''key'') (Flows None None) 1736166872000
                  (world_with (Rejects (ErrorObj ''Query timed out'')))))
       = empty_store
     \<and> puts (snd (serve (Some ''key'') (Flows None None) 1736166872000
                  (world_with (Rejects (ErrorObj ''Query timed out'')))))
       = []"
    unfolding w e by blast
  from upstream_failure_no_cache_write [OF k, of "Wallet ''0xdbf5'' None"
      "world_with (Rejects (ErrorObj ''Query failed''))" 1736166872000 "ErrorObj ''Query failed''"]
    a' m' o'
  have 2: "fst (serve (Some ''key'') (Wallet ''0xdbf5'' None) 1736166872000 (world_with (Rejects (ErrorObj ''Query failed''))))
       = Resolves \<lparr>status = 500, body = JObj [(''error'', JStr ''Query failed'')], headers = []\<rparr>
     \<and> edge (snd (serve (Some ''key'') (Wallet ''0xdbf5'' None) 1736166872000
                  (world_with (Rejects (ErrorObj ''Query failed'')))))
       = empty_store
     \<and> puts (snd (serve (Some ''key'') (Wallet ''0xdbf5'' None) 1736166872000
                  (world_with (Rejects (ErrorObj ''Query failed'')))))
       = []"
    unfolding w e by blast
  note f1 = conjunct1 [OF 1] and f2 = conjunct1 [OF conjunct2 [OF 1]]
    and f3 = conjunct2 [OF conjunct2 [OF 1]]
  note g1 = conjunct1 [OF 2] and g2 = conjunct1 [OF conjunct2 [OF 2]]
    and g3 = conjunct2 [OF conjunct2 [OF 2]]
  from k a a' m o f1 f2 f3 m' o' g1 g2 g3 show ?thesis by (intro conjI)
qed

text \<open>
  The endpoint that warms the cache is not one of these routes. It runs the default queries
  as jobs, keeps a failure inside its job, and answers with a summary of the jobs. With
  every upstream operation timing out each job is reported as rejected, in an answer with
  status 200; nothing has been written to the edge cache.
\<close>

lemma prefetch_reports_failures_per_job:
  "fst (prefetch_GET (Some ''key'') 1736166872000 (world_with (Rejects (ErrorObj ''Query timed out''))))
     = Resolves \<lparr>status = 200,
          body = JObj [(''prefetched'', JArr
            [JObj [(''status'', JStr ''rejected''), (''result'', JStr ''Error: Query timed out'')],
             JObj [(''status'', JStr ''rejected''), (''result'', JStr ''Error: Query timed out'')],
             JObj [(''status'', JStr ''rejected''), (''result'', JStr ''Error: Query timed out'')]])],
          headers = []\<rparr>
   \<and> puts (snd (prefetch_GET (Some ''key'') 1736166872000
                  (world_with (Rejects (ErrorObj ''Query timed out''))))) = []"
  by code_simp

text \<open>
  C5, as stated: without explicit dates every data-serving route uses the window that ends
  at the current hour and starts 24 hours before. The bridges route does not: its default
  window is the last hour.
\<close>

theorem bridges_default_window_counterexample:
  "bridges_params None None 1736166872000 = (''2025-01-06 11:00:00'', ''2025-01-06 12:00:00'')
   \<and> spanHours ''2025-01-06 11:00:00'' ''2025-01-06 12:00:00'' = Some 1"
  by code_simp

text \<open>
  C5, amended: without explicit dates the window ends at the current time floored to the
  hour and starts 24 hours earlier in the flows route, 1 hour earlier in the bridges route.
  The default goes through the same \<open>snapToHour\<close> as explicit input (which leaves it
  unchanged, as it is on an hour boundary), so two callers within the same hour get the
  same parameters and the same fingerprint.
\<close>

theorem default_window:
  shows "flows_params None None now
           = (iso_timestamp (hour_floor now - 24 * 3600 * 1000), iso_timestamp (hour_floor now))
       \<and> bridges_params None None now
           = (iso_timestamp (hour_floor now - 3600 * 1000), iso_timestamp (hour_floor now))
       \<and> hour_floor now = now div 3600000 * 3600000
       \<and> snapToHour (iso_timestamp (hour_floor now)) = iso_timestamp (hour_floor now)
       \<and> (s \<noteq> [] \<and> e \<noteq> [] \<longrightarrow> flows_params (Some s) (Some e) now = (snapToHour s, snapToHour e)
              \<and> bridges_params (Some s) (Some e) now = (snapToHour s, snapToHour e))
       \<and> (now div 3600000 = now' div 3600000 \<longrightarrow>
            flows_params None None now = flows_params None None now'
            \<and> bridges_params None None now = bridges_params None None now'
            \<and> cacheKey compare_codes FLOWS_QUERY_ID (param_entries (flows_params None None now))
              = cacheKey compare_codes FLOWS_QUERY_ID (param_entries (flows_params None None now'))
            \<and> cacheKey compare_codes BRIDGE_QUERY_ID (param_entries (bridges_params None None now))
              = cacheKey compare_codes BRIDGE_QUERY_ID (param_entries (bridges_params None None now')))"
proof -
  have al: "(hour_floor n - k * 3600000) mod 3600000 = 0" for n k
    by (simp add: hour_floor_div mod_diff_eq [symmetric])
  have a0: "snapToHour (iso_timestamp (hour_floor n)) = iso_timestamp (hour_floor n)" for n
    using snapToHour_aligned [OF al [of n 0]] by simp
  have a24: "snapToHour (iso_timestamp (hour_floor n - 24 * 3600 * 1000))
      = iso_timestamp (hour_floor n - 24 * 3600 * 1000)" for n
    using snapToHour_aligned [OF al [of n 24]] by simp
  have a1: "snapToHour (iso_timestamp (hour_floor n - 3600 * 1000))
      = iso_timestamp (hour_floor n - 3600 * 1000)" for n
    using snapToHour_aligned [OF al [of n 1]] by simp
  have f: "flows_params None None n
      = (iso_timestamp (hour_floor n - 24 * 3600 * 1000), iso_timestamp (hour_floor n))" for n
    unfolding flows_params_def or_default_def Let_def option.case a0 a24 ..
  have b: "bridges_params None None n
      = (iso_timestamp (hour_floor n - 3600 * 1000), iso_timestamp (hour_floor n))" for n
    unfolding bridges_params_def or_default_def Let_def option.case a0 a1 ..
  have same: "hour_floor now = hour_floor now'" if "now div 3600000 = now' div 3600000"
    using that by (simp add: hour_floor_div)
  have ex: "s \<noteq> [] \<and> e \<noteq> [] \<longrightarrow> flows_params (Some s) (Some e) now = (snapToHour s, snapToHour e)
              \<and> bridges_params (Some s) (Some e) now = (snapToHour s, snapToHour e)"
    by (simp add: flows_params_def bridges_params_def or_default_def Let_def)
  have eq: "now div 3600000 = now' div 3600000 \<longrightarrow>
            flows_params None None now = flows_params None None now'
            \<and> bridges_params None None now = bridges_params None None now'
            \<and> cacheKey compare_codes FLOWS_QUERY_ID (param_entries (flows_params None None now))
              = cacheKey compare_codes FLOWS_QUERY_ID (param_entries (flows_params None None now'))
            \<and> cacheKey compare_codes BRIDGE_QUERY_ID (param_entries (bridges_params None None now))
              = cacheKey compare_codes BRIDGE_QUERY_ID (param_entries (bridges_params None None now'))"
    unfolding f b using same by simp
  from f [of now] b [of now] hour_floor_div [of now] a0 [of now] ex eq show ?thesis
    by (intro conjI)
qed

theorem default_window_witness:
  "''2025-01-06 00:14:32'' \<noteq> [] \<and> ''2025-01-06 12:45:00'' \<noteq> []
   \<and> (1736166872000 :: int) div 3600000 = 1736168399999 div 3600000
   \<and> flows_params None None 1736166872000 = (''2025-01-05 12:00:00'', ''2025-01-06 12:00:00'')
   \<and> flows_params None None 1736168399999 = (''2025-01-05 12:00:00'', ''2025-01-06 12:00:00'')
   \<and> bridges_params None None 1736168399999 = (''2025-01-06 11:00:00'', ''2025-01-06 12:00:00'')
   \<and> flows_params (Some ''2025-01-06 00:14:32'') (Some ''2025-01-06 12:45:00'') 1736166872000
       = (''2025-01-06 00:00:00'', ''2025-01-06 12:00:00'')"
proof -
  have h: "''2025-01-06 00:14:32'' \<noteq> [] \<and> ''2025-01-06 12:45:00'' \<noteq> []"
    by simp
  have d: "(1736166872000 :: int) div 3600000 = 1736168399999 div 3600000"
    by simp
  have f: "flows_params None None 1736166872000 = (''2025-01-05 12:00:00'', ''2025-01-06 12:00:00'')"
    by code_simp
  have b: "bridges_params None None 1736166872000 = (''2025-01-06 11:00:00'', ''2025-01-06 12:00:00'')"
    by code_simp
  have s: "snapToHour ''2025-01-06 00:14:32'' = ''2025-01-06 00:00:00''"
      "snapToHour ''2025-01-06 12:45:00'' = ''2025-01-06 12:00:00''"
    by (simp_all add: snapToHour_def)
  from default_window [of 1736166872000 "''2025-01-06 00:14:32''" "''2025-01-06 12:45:00''" 1736168399999]
    h d f b s show ?thesis
    by metis
qed

section \<open>Properties of the coalescer\<close>

lemma update_absent: "map_of al k = None \<Longrightarrow> AList.update k v al = al @ [(k, v)]"
  by (induction al) (auto split: if_splits)

lemma consistent_distinct: "consistent s \<Longrightarrow> distinct (map fst (inflight s))"
  by (simp add: consistent_def)

lemma consistent_entry:
  assumes "consistent s"
  shows "map_of (inflight s) k = Some c \<longleftrightarrow>
           c < length (flights s) \<and> flight_key (flights s ! c) = k \<and> in_table (flights s ! c)"
proof
  assume "map_of (inflight s) k = Some c"
  then have "(k, c) \<in> set (inflight s)" by (rule map_of_SomeD)
  moreover from assms have "\<forall>(k, c) \<in> set (inflight s). c < length (flights s)
      \<and> flight_key (flights s ! c) = k \<and> in_table (flights s ! c)"
    by (simp add: consistent_def)
  ultimately show "c < length (flights s) \<and> flight_key (flights s ! c) = k \<and> in_table (flights s ! c)"
    by fast
next
  assume a: "c < length (flights s) \<and> flight_key (flights s ! c) = k \<and> in_table (flights s ! c)"
  from assms have "\<forall>c < length (flights s). in_table (flights s ! c)
             \<longrightarrow> map_of (inflight s) (flight_key (flights s ! c)) = Some c"
    by (simp add: consistent_def)
  with a show "map_of (inflight s) k = Some c" by fast
qed

lemma consistent_passed_on:
  "consistent s \<Longrightarrow> c < length (flights s) \<Longrightarrow> passed_on (flights s ! c)"
  by (simp add: consistent_def)

lemma consistent_handle:
  assumes "consistent s" "h < length (handles s)"
  shows "fst (handles s ! h) < length (flights s)"
    and "snd (handles s ! h) \<noteq> None \<Longrightarrow> snd (handles s ! h) = registered (flights s ! fst (handles s ! h))"
proof -
  obtain c st where x: "handles s ! h = (c, st)" by (cases "handles s ! h")
  from assms(2) have "handles s ! h \<in> set (handles s)" by (rule nth_mem)
  with x have m: "(c, st) \<in> set (handles s)" by simp
  from assms(1) have "\<forall>(c, st) \<in> set (handles s). c < length (flights s)
             \<and> (st \<noteq> None \<longrightarrow> st = registered (flights s ! c))"
    unfolding consistent_def by (elim conjE)
  from bspec [OF this m] have "c < length (flights s) \<and> (st \<noteq> None \<longrightarrow> st = registered (flights s ! c))"
    by simp
  with x show "fst (handles s ! h) < length (flights s)"
    and "snd (handles s ! h) \<noteq> None \<Longrightarrow> snd (handles s ! h) = registered (flights s ! fst (handles s ! h))"
    by simp_all
qed

lemma consistentI:
  assumes D: "distinct (map fst (inflight s))"
    and E: "\<And>k c. map_of (inflight s) k = Some c \<longleftrightarrow>
           c < length (flights s) \<and> flight_key (flights s ! c) = k \<and> in_table (flights s ! c)"
    and V: "\<And>c. c < length (flights s) \<Longrightarrow> passed_on (flights s ! c)"
    and R: "\<And>h. h < length (handles s) \<Longrightarrow> fst (handles s ! h) < length (flights s)
           \<and> (snd (handles s ! h) \<noteq> None \<longrightarrow> snd (handles s ! h) = registered (flights s ! fst (handles s ! h)))"
  shows "consistent s"
proof -
  have 1: "\<forall>(k, c) \<in> set (inflight s). c < length (flights s) \<and> flight_key (flights s ! c) = k
             \<and> in_table (flights s ! c)"
  proof (rule ballI)
    fix x assume "x \<in> set (inflight s)"
    then have "(fst x, snd x) \<in> set (inflight s)" by simp
    with D have "map_of (inflight s) (fst x) = Some (snd x)" by (simp only: map_of_eq_Some_iff)
    then have "snd x < length (flights s) \<and> flight_key (flights s ! snd x) = fst x \<and> in_table (flights s ! snd x)"
      by (simp only: E)
    then show "case x of (k, c) \<Rightarrow> c < length (flights s) \<and> flight_key (flights s ! c) = k
             \<and> in_table (flights s ! c)"
      by (simp add: case_prod_beta)
  qed
  have 2: "\<forall>c < length (flights s). in_table (flights s ! c)
             \<longrightarrow> map_of (inflight s) (flight_key (flights s ! c)) = Some c"
    by (simp add: E)
  have 3: "\<forall>fl \<in> set (flights s). passed_on fl"
    using V by (auto simp: in_set_conv_nth)
  have 4: "\<forall>(c, st) \<in> set (handles s). c < length (flights s)
             \<and> (st \<noteq> None \<longrightarrow> st = registered (flights s ! c))"
  proof (rule ballI)
    fix x assume "x \<in> set (handles s)"
    then obtain h where h: "h < length (handles s)" "handles s ! h = x"
      by (auto simp: in_set_conv_nth)
    from R [OF h(1)] h(2) show "case x of (c, st) \<Rightarrow> c < length (flights s)
             \<and> (st \<noteq> None \<longrightarrow> st = registered (flights s ! c))"
      by (simp add: case_prod_beta)
  qed
  from D 1 2 3 4 show ?thesis unfolding consistent_def by (intro conjI)
qed

lemma inv_init: "consistent init"
  by (simp add: consistent_def init_def)

lemma inv_return_promise:
  assumes "consistent s" "p < length (flights s)"
  shows "consistent (snd (return_promise p s))"
proof (rule consistentI)
  show "distinct (map fst (inflight (snd (return_promise p s))))"
    using consistent_distinct [OF assms(1)] by (simp add: return_promise_def)
next
  fix k c
  show "map_of (inflight (snd (return_promise p s))) k = Some c \<longleftrightarrow>
         c < length (flights (snd (return_promise p s)))
         \<and> flight_key (flights (snd (return_promise p s)) ! c) = k
         \<and> in_table (flights (snd (return_promise p s)) ! c)"
    using consistent_entry [OF assms(1), of k c] by (simp add: return_promise_def)
next
  fix c assume "c < length (flights (snd (return_promise p s)))"
  then show "passed_on (flights (snd (return_promise p s)) ! c)"
    using consistent_passed_on [OF assms(1), of c] by (simp add: return_promise_def)
next
  fix h assume h: "h < length (handles (snd (return_promise p s)))"
  show "fst (handles (snd (return_promise p s)) ! h) < length (flights (snd (return_promise p s)))
     \<and> (snd (handles (snd (return_promise p s)) ! h) \<noteq> None \<longrightarrow>
          snd (handles (snd (return_promise p s)) ! h)
            = registered (flights (snd (return_promise p s)) ! fst (handles (snd (return_promise p s)) ! h)))"
  proof (cases "h < length (handles s)")
    case True
    with consistent_handle [OF assms(1) True] show ?thesis
      by (simp add: return_promise_def nth_append)
  next
    case False
    with h have "h = length (handles s)" by (simp add: return_promise_def)
    with assms(2) show ?thesis by (simp add: return_promise_def)
  qed
qed

lemma in_table_new [simp]:
  "in_table \<lparr>flight_key = key, fetcher = f, operation = None, after_then = None, registered = None\<rparr>"
  by (simp add: in_table_def is_resolved_def)

lemma passed_on_new [simp]:
  "passed_on \<lparr>flight_key = key, fetcher = f, operation = None, after_then = None, registered = None\<rparr>"
  by (simp add: passed_on_def)

lemma inv_register:
  assumes c: "consistent s" and n: "map_of (inflight s) key = None"
  shows "consistent (s\<lparr>flights := flights s @ [\<lparr>flight_key = key, fetcher = f, operation = None,
                                               after_then = None, registered = None\<rparr>],
                        inflight := AList.update key (length (flights s)) (inflight s)\<rparr>)"
    (is "consistent ?t")
proof (rule consistentI)
  show "distinct (map fst (inflight ?t))"
    using consistent_distinct [OF c] by (simp add: distinct_update)
next
  fix k c'
  have old: "map_of (inflight s) k = Some c' \<longleftrightarrow>
           c' < length (flights s) \<and> flight_key (flights s ! c') = k \<and> in_table (flights s ! c')"
    by (rule consistent_entry [OF c])
  have none: "\<not> (c' < length (flights s) \<and> flight_key (flights s ! c') = key \<and> in_table (flights s ! c'))"
    using consistent_entry [OF c, of key c'] n by simp
  show "map_of (inflight ?t) k = Some c' \<longleftrightarrow>
         c' < length (flights ?t) \<and> flight_key (flights ?t ! c') = k \<and> in_table (flights ?t ! c')"
  proof (cases "c' < length (flights s)")
    case True
    with old none show ?thesis
      by (auto simp: update_conv' nth_append)
  next
    case False
    with old show ?thesis
      by (cases "c' = length (flights s)") (auto simp: update_conv' nth_append)
  qed
next
  fix c' assume "c' < length (flights ?t)"
  then show "passed_on (flights ?t ! c')"
    using consistent_passed_on [OF c, of c'] by (cases "c' < length (flights s)") (auto simp: nth_append)
next
  fix h assume "h < length (handles ?t)"
  then have h: "h < length (handles s)" by simp
  from consistent_handle [OF c h] show "fst (handles ?t ! h) < length (flights ?t)
     \<and> (snd (handles ?t ! h) \<noteq> None \<longrightarrow>
          snd (handles ?t ! h) = registered (flights ?t ! fst (handles ?t ! h)))"
    by (simp add: nth_append)
qed

lemma inv_dedup:
  assumes "consistent s"
  shows "consistent (snd (dedup key f s))"
proof (cases "map_of (inflight s) key")
  case None
  have "consistent (snd (return_promise (length (flights s))
      (s\<lparr>flights := flights s @ [\<lparr>flight_key = key, fetcher = f, operation = None,
                                               after_then = None, registered = None\<rparr>],
                        inflight := AList.update key (length (flights s)) (inflight s)\<rparr>)))"
    by (rule inv_return_promise [OF inv_register [OF assms None]]) simp
  with None show ?thesis by (simp add: dedup_def Let_def)
next
  case (Some existing)
  with consistent_entry [OF assms, of key existing] have "existing < length (flights s)" by simp
  from inv_return_promise [OF assms this] Some show ?thesis by (simp add: dedup_def)
qed

lemma inv_settle:
  assumes c: "consistent s"
  shows "consistent (settle c0 outcome s)"
proof (cases "c0 < length (flights s) \<and> operation (flights s ! c0) = None")
  case False
  then have "settle c0 outcome s = s" by (auto simp: settle_def)
  with c show ?thesis by simp
next
  case True
  let ?fl = "(flights s ! c0)\<lparr>operation := Some outcome\<rparr>"
  let ?t = "s\<lparr>flights := (flights s)[c0 := ?fl]\<rparr>"
  have t: "settle c0 outcome s = ?t" using True by (simp add: settle_def)
  have nth: "flight_key (flights ?t ! c') = flight_key (flights s ! c')"
      "in_table (flights ?t ! c') = in_table (flights s ! c')"
      "registered (flights ?t ! c') = registered (flights s ! c')"
    if "c' < length (flights s)" for c'
    using that by (cases "c' = c0"; simp add: in_table_def)+
  have "consistent ?t"
  proof (rule consistentI)
    show "distinct (map fst (inflight ?t))"
      using consistent_distinct [OF c] by simp
  next
    fix k c'
    show "map_of (inflight ?t) k = Some c' \<longleftrightarrow>
         c' < length (flights ?t) \<and> flight_key (flights ?t ! c') = k \<and> in_table (flights ?t ! c')"
      using consistent_entry [OF c, of k c'] nth [of c'] by (cases "c' < length (flights s)") auto
  next
    fix c' assume "c' < length (flights ?t)"
    then have l: "c' < length (flights s)" by simp
    show "passed_on (flights ?t ! c')"
    proof (cases "c' = c0")
      case True
      with consistent_passed_on [OF c l] \<open>c0 < length (flights s) \<and> operation (flights s ! c0) = None\<close>
      show ?thesis by (auto simp: passed_on_def)
    next
      case False
      with consistent_passed_on [OF c l] l show ?thesis by simp
    qed
  next
    fix h assume "h < length (handles ?t)"
    then have h: "h < length (handles s)" by simp
    from consistent_handle [OF c h] nth(3) [of "fst (handles s ! h)"]
    show "fst (handles ?t ! h) < length (flights ?t)
     \<and> (snd (handles ?t ! h) \<noteq> None \<longrightarrow>
          snd (handles ?t ! h) = registered (flights ?t ! fst (handles ?t ! h)))"
      by simp
  qed
  with t show ?thesis by simp
qed

lemma inv_run_return:
  assumes c: "consistent s"
  shows "consistent (run_return h0 s)"
proof (cases "h0 < length (handles s) \<and> snd (handles s ! h0) = None
    \<and> registered_at s (fst (handles s ! h0)) \<noteq> None")
  case False
  then have "run_return h0 s = s" by (auto simp: run_return_def split: option.splits)
  with c show ?thesis by simp
next
  case True
  then obtain outcome where o: "registered_at s (fst (handles s ! h0)) = Some outcome" by auto
  let ?t = "s\<lparr>handles := (handles s)[h0 := (fst (handles s ! h0), Some outcome)]\<rparr>"
  have t: "run_return h0 s = ?t" using True o by (simp add: run_return_def)
  have "consistent ?t"
  proof (rule consistentI)
    show "distinct (map fst (inflight ?t))"
      using consistent_distinct [OF c] by simp
  next
    fix k c'
    show "map_of (inflight ?t) k = Some c' \<longleftrightarrow>
         c' < length (flights ?t) \<and> flight_key (flights ?t ! c') = k \<and> in_table (flights ?t ! c')"
      using consistent_entry [OF c, of k c'] by simp
  next
    fix c' assume "c' < length (flights ?t)"
    then show "passed_on (flights ?t ! c')"
      using consistent_passed_on [OF c, of c'] by simp
  next
    fix h assume "h < length (handles ?t)"
    then have h: "h < length (handles s)" by simp
    show "fst (handles ?t ! h) < length (flights ?t)
     \<and> (snd (handles ?t ! h) \<noteq> None \<longrightarrow>
          snd (handles ?t ! h) = registered (flights ?t ! fst (handles ?t ! h)))"
    proof (cases "h = h0")
      case True
      with consistent_handle(1) [OF c h] o h show ?thesis
        by (simp add: registered_at_def)
    next
      case False
      with consistent_handle [OF c h] h show ?thesis by simp
    qed
  qed
  with t show ?thesis by simp
qed

lemma inv_update_same:
  assumes c: "consistent s" and l: "c0 < length (flights s)"
    and k: "flight_key fl' = flight_key (flights s ! c0)"
    and i: "in_table fl' = in_table (flights s ! c0)"
    and p: "passed_on fl'"
    and r: "registered fl' = registered (flights s ! c0) \<or> registered (flights s ! c0) = None"
  shows "consistent (s\<lparr>flights := (flights s)[c0 := fl']\<rparr>)" (is "consistent ?t")
proof (rule consistentI)
  show "distinct (map fst (inflight ?t))"
    using consistent_distinct [OF c] by simp
next
  fix k' c'
  show "map_of (inflight ?t) k' = Some c' \<longleftrightarrow>
       c' < length (flights ?t) \<and> flight_key (flights ?t ! c') = k' \<and> in_table (flights ?t ! c')"
    using consistent_entry [OF c, of k' c'] k i l by (cases "c' = c0") auto
next
  fix c' assume "c' < length (flights ?t)"
  then show "passed_on (flights ?t ! c')"
    using consistent_passed_on [OF c, of c'] p by (cases "c' = c0") auto
next
  fix h assume "h < length (handles ?t)"
  then have h: "h < length (handles s)" by simp
  from consistent_handle [OF c h] r l
  show "fst (handles ?t ! h) < length (flights ?t)
     \<and> (snd (handles ?t ! h) \<noteq> None \<longrightarrow>
          snd (handles ?t ! h) = registered (flights ?t ! fst (handles ?t ! h)))"
    by (cases "fst (handles s ! h) = c0") auto
qed

lemma inv_delete_update:
  assumes c: "consistent s" and l: "c0 < length (flights s)"
    and k: "flight_key fl' = flight_key (flights s ! c0)"
    and i: "in_table (flights s ! c0)" "\<not> in_table fl'"
    and p: "passed_on fl'"
  shows "consistent (s\<lparr>inflight := AList.delete (flight_key (flights s ! c0)) (inflight s),
                        flights := (flights s)[c0 := fl']\<rparr>)" (is "consistent ?t")
proof (rule consistentI)
  show "distinct (map fst (inflight ?t))"
    using consistent_distinct [OF c] by (simp add: distinct_delete)
next
  fix k' c'
  have own: "map_of (inflight s) (flight_key (flights s ! c0)) = Some c0"
    using consistent_entry [OF c, of "flight_key (flights s ! c0)" c0] l i(1) by simp
  show "map_of (inflight ?t) k' = Some c' \<longleftrightarrow>
       c' < length (flights ?t) \<and> flight_key (flights ?t ! c') = k' \<and> in_table (flights ?t ! c')"
  proof (cases "c' = c0")
    case True
    with consistent_entry [OF c, of k' c0] i(2) l show ?thesis
      by (auto simp: delete_conv')
  next
    case False
    with consistent_entry [OF c, of k' c'] own show ?thesis
      by (auto simp: delete_conv')
  qed
next
  fix c' assume "c' < length (flights ?t)"
  then show "passed_on (flights ?t ! c')"
    using consistent_passed_on [OF c, of c'] p by (cases "c' = c0") auto
next
  fix h assume "h < length (handles ?t)"
  then have h: "h < length (handles s)" by simp
  from i(1) have "registered (flights s ! c0) = None" by (simp add: in_table_def)
  with consistent_handle [OF c h] l
  show "fst (handles ?t ! h) < length (flights ?t)
     \<and> (snd (handles ?t ! h) \<noteq> None \<longrightarrow>
          snd (handles ?t ! h) = registered (flights ?t ! fst (handles ?t ! h)))"
    by (cases "fst (handles s ! h) = c0") auto
qed

lemma inv_run_then:
  assumes c: "consistent s"
  shows "consistent (run_then c0 s)"
proof (cases "c0 < length (flights s) \<and> after_then (flights s ! c0) = None")
  case False
  then have "run_then c0 s = s" by (auto simp: run_then_def)
  with c show ?thesis by simp
next
  case True
  then have l: "c0 < length (flights s)" and a: "after_then (flights s ! c0) = None" by simp_all
  from consistent_passed_on [OF c l] a have r: "registered (flights s ! c0) = None"
    by (auto simp: passed_on_def)
  show ?thesis
  proof (cases "operation (flights s ! c0)")
    case None
    with True have "run_then c0 s = s" by (simp add: run_then_def)
    with c show ?thesis by simp
  next
    case (Some outcome)
    show ?thesis
    proof (cases outcome)
      case (Resolves result)
      have "consistent (s\<lparr>inflight := AList.delete (flight_key (flights s ! c0)) (inflight s),
          flights := (flights s)[c0 := (flights s ! c0)\<lparr>after_then := Some (Resolves result)\<rparr>]\<rparr>)"
        using a r Some Resolves
        by (intro inv_delete_update [OF c l]) (simp_all add: in_table_def is_resolved_def passed_on_def)
      with True Some Resolves show ?thesis by (simp add: run_then_def Let_def)
    next
      case (Rejects err)
      have "consistent (s\<lparr>flights := (flights s)[c0 := (flights s ! c0)\<lparr>after_then := Some (Rejects err)\<rparr>]\<rparr>)"
        using a r Some Rejects
        by (intro inv_update_same [OF c l]) (simp_all add: in_table_def is_resolved_def passed_on_def)
      with True Some Rejects show ?thesis by (simp add: run_then_def Let_def)
    qed
  qed
qed

lemma inv_run_catch:
  assumes c: "consistent s"
  shows "consistent (run_catch c0 s)"
proof (cases "c0 < length (flights s) \<and> registered (flights s ! c0) = None")
  case False
  then have "run_catch c0 s = s" by (auto simp: run_catch_def)
  with c show ?thesis by simp
next
  case True
  then have l: "c0 < length (flights s)" and r: "registered (flights s ! c0) = None" by simp_all
  note p = consistent_passed_on [OF c l]
  show ?thesis
  proof (cases "after_then (flights s ! c0)")
    case None
    with True have "run_catch c0 s = s" by (simp add: run_catch_def)
    with c show ?thesis by simp
  next
    case (Some outcome)
    from p Some have op: "operation (flights s ! c0) = Some outcome"
      by (simp add: passed_on_def)
    show ?thesis
    proof (cases outcome)
      case (Resolves result)
      have "consistent (s\<lparr>flights := (flights s)[c0 := (flights s ! c0)\<lparr>registered := Some (Resolves result)\<rparr>]\<rparr>)"
        using op r Some Resolves
        by (intro inv_update_same [OF c l]) (simp_all add: in_table_def is_resolved_def passed_on_def)
      with True Some Resolves show ?thesis by (simp add: run_catch_def Let_def)
    next
      case (Rejects err)
      have "consistent (s\<lparr>inflight := AList.delete (flight_key (flights s ! c0)) (inflight s),
          flights := (flights s)[c0 := (flights s ! c0)\<lparr>registered := Some (Rejects err)\<rparr>]\<rparr>)"
        using op r Some Rejects
        by (intro inv_delete_update [OF c l]) (simp_all add: in_table_def is_resolved_def passed_on_def)
      with True Some Rejects show ?thesis by (simp add: run_catch_def Let_def)
    qed
  qed
qed

lemma inv_step: "consistent s \<Longrightarrow> consistent (step e s)"
  by (cases e) (simp_all add: inv_dedup inv_settle inv_run_then inv_run_catch inv_run_return)

lemma inv_run: "consistent s \<Longrightarrow> consistent (run es s)"
  by (induction es arbitrary: s) (simp_all add: inv_step)

lemma inv_drain: "consistent s \<Longrightarrow> consistent (drain s)"
  by (simp add: drain_def inv_run)

lemma keeps_refl [simp]: "keeps x x" "keeps None y"
  by (simp_all add: keeps_def)

lemma flight_kept_refl [simp]: "flight_kept fl fl"
  by (simp add: flight_kept_def)

lemma extends_refl [simp]: "extends s s"
  by (simp add: extends_def)

lemma keeps_trans: "keeps a b \<Longrightarrow> keeps b c \<Longrightarrow> keeps a c"
  by (auto simp: keeps_def)

lemma flight_kept_trans: "flight_kept a b \<Longrightarrow> flight_kept b c \<Longrightarrow> flight_kept a c"
  unfolding flight_kept_def by (auto intro: keeps_trans)

lemma extends_trans:
  assumes "extends s t" "extends t u"
  shows "extends s u"
  unfolding extends_def
proof (intro conjI allI impI)
  show "length (flights s) \<le> length (flights u)"
    using assms by (simp add: extends_def)
  show "length (handles s) \<le> length (handles u)"
    using assms by (simp add: extends_def)
next
  fix c assume c: "c < length (flights s)"
  with assms(1) have 1: "flight_kept (flights s ! c) (flights t ! c)" and "c < length (flights t)"
    by (simp_all add: extends_def)
  with assms(2) have "flight_kept (flights t ! c) (flights u ! c)"
    by (simp add: extends_def)
  with 1 show "flight_kept (flights s ! c) (flights u ! c)"
    by (rule flight_kept_trans)
next
  fix h assume h: "h < length (handles s)"
  with assms(1) have 1: "fst (handles t ! h) = fst (handles s ! h)"
      "keeps (snd (handles s ! h)) (snd (handles t ! h))" and "h < length (handles t)"
    by (simp_all add: extends_def)
  with assms(2) have 2: "fst (handles u ! h) = fst (handles t ! h)"
      "keeps (snd (handles t ! h)) (snd (handles u ! h))"
    by (simp_all add: extends_def)
  from 1 2 show "fst (handles u ! h) = fst (handles s ! h)" by simp
  from 1 2 show "keeps (snd (handles s ! h)) (snd (handles u ! h))" by (blast intro: keeps_trans)
qed

lemma extends_flight_update:
  assumes "c < length (flights s)" "flight_kept (flights s ! c) fl'"
  shows "extends s (s\<lparr>inflight := T, flights := (flights s)[c := fl']\<rparr>)"
    and "extends s (s\<lparr>flights := (flights s)[c := fl']\<rparr>)"
  using assms by (auto simp: extends_def nth_list_update)

lemma extends_return_promise: "extends s (snd (return_promise p s))"
  by (simp add: extends_def return_promise_def nth_append)

lemma extends_dedup: "extends s (snd (dedup key f s))"
proof (cases "map_of (inflight s) key")
  case None
  let ?t = "s\<lparr>flights := flights s @ [\<lparr>flight_key = key, fetcher = f, operation = None,
       after_then = None, registered = None\<rparr>],
       inflight := AList.update key (length (flights s)) (inflight s)\<rparr>"
  have "extends s ?t" by (simp add: extends_def nth_append)
  moreover have "extends ?t (snd (return_promise (length (flights s)) ?t))"
    by (rule extends_return_promise)
  ultimately have "extends s (snd (return_promise (length (flights s)) ?t))"
    by (rule extends_trans)
  with None show ?thesis by (simp add: dedup_def Let_def)
next
  case (Some existing)
  then show ?thesis by (simp add: dedup_def extends_return_promise)
qed

lemma extends_settle: "extends s (settle c outcome s)"
  by (auto simp: settle_def flight_kept_def intro!: extends_flight_update)

lemma extends_run_then: "extends s (run_then c s)"
  by (auto simp: run_then_def Let_def flight_kept_def split: option.splits promise.splits
      intro!: extends_flight_update)

lemma extends_run_catch: "extends s (run_catch c s)"
  by (auto simp: run_catch_def Let_def flight_kept_def split: option.splits promise.splits
      intro!: extends_flight_update)

lemma extends_run_return: "extends s (run_return h s)"
  by (auto simp: run_return_def extends_def nth_list_update keeps_def split: option.splits)

lemma extends_step: "extends s (step e s)"
  by (cases e) (simp_all add: extends_dedup extends_settle extends_run_then extends_run_catch
      extends_run_return)

lemma extends_run: "extends s (run es s)"
proof (induction es arbitrary: s)
  case Nil
  show ?case by simp
next
  case (Cons e es)
  have "extends s (step e s)" by (rule extends_step)
  moreover have "extends (step e s) (run es (step e s))" by (rule Cons.IH)
  ultimately show ?case by (simp add: extends_trans)
qed

lemma run_append: "run (xs @ ys) s = run ys (run xs s)"
  by (induction xs arbitrary: s) simp_all

lemma map_update_same:
  "c < length xs \<Longrightarrow> g y = g (xs ! c) \<Longrightarrow> map g (xs[c := y]) = map g xs"
  by (simp add: map_update list_update_same_conv)

lemma invocations_started:
  "invocations key s = map snd (filter (\<lambda>x. fst x = key) (started s))"
  by (simp add: invocations_def started_def filter_map o_def)

lemma waiting_length: "length (waiting c s) = count_list (map fst (handles s)) c"
proof -
  have "length (filter (\<lambda>h. fst (xs ! h) = c) [0..<length xs]) = count_list (map fst xs) c" for xs :: "(nat \<times> 'a) list"
  proof (induction xs rule: rev_induct)
    case Nil
    show ?case by simp
  next
    case (snoc x xs)
    have "filter (\<lambda>h. fst ((xs @ [x]) ! h) = c) [0..<length xs] = filter (\<lambda>h. fst (xs ! h) = c) [0..<length xs]"
      by (rule filter_cong) (simp_all add: nth_append)
    with snoc show ?case by simp
  qed
  then show ?thesis by (simp add: waiting_def)
qed

lemma waiting_member:
  "h \<in> set (waiting c s) \<longleftrightarrow> h < length (handles s) \<and> fst (handles s ! h) = c"
  by (auto simp: waiting_def)

lemma started_settle [simp]: "started (settle c outcome s) = started s"
  by (simp add: settle_def started_def map_update_same)

lemma started_run_then [simp]: "started (run_then c s) = started s"
  by (simp add: run_then_def started_def map_update_same Let_def split: option.splits promise.splits)

lemma started_run_catch [simp]: "started (run_catch c s) = started s"
  by (simp add: run_catch_def started_def map_update_same Let_def split: option.splits promise.splits)

lemma started_run_return [simp]: "started (run_return h s) = started s"
  by (simp add: run_return_def started_def split: option.splits)

lemma started_step: "\<not> is_call e \<Longrightarrow> started (step e s) = started s"
  by (cases e) (simp_all add: is_call_def)

lemma started_dedup:
  "started (snd (dedup key f s)) =
     (case map_of (inflight s) key of None \<Rightarrow> started s @ [(key, f)] | Some existing \<Rightarrow> started s)"
  by (simp add: dedup_def return_promise_def started_def Let_def split: option.splits)

lemma bound_settle [simp]: "map fst (handles (settle c outcome s)) = map fst (handles s)"
  by (simp add: settle_def)

lemma bound_run_then [simp]: "map fst (handles (run_then c s)) = map fst (handles s)"
  by (simp add: run_then_def Let_def split: option.splits promise.splits)

lemma bound_run_catch [simp]: "map fst (handles (run_catch c s)) = map fst (handles s)"
  by (simp add: run_catch_def Let_def split: option.splits promise.splits)

lemma bound_run_return [simp]: "map fst (handles (run_return h s)) = map fst (handles s)"
  by (simp add: run_return_def map_update_same split: option.splits)

lemma bound_dedup:
  "map fst (handles (snd (dedup key f s))) =
     map fst (handles s) @ [case map_of (inflight s) key of None \<Rightarrow> length (flights s) | Some existing \<Rightarrow> existing]"
  by (simp add: dedup_def return_promise_def Let_def split: option.splits)

lemma pending_has_entry:
  assumes "consistent s" "c < length (flights s)" "operation (flights s ! c) = None"
  shows "map_of (inflight s) (flight_key (flights s ! c)) = Some c"
proof -
  from consistent_passed_on [OF assms(1,2)] assms(3) have "in_table (flights s ! c)"
    by (auto simp: passed_on_def in_table_def is_resolved_def)
  with consistent_entry [OF assms(1), of "flight_key (flights s ! c)" c] assms(2) show ?thesis by simp
qed

lemma operation_step:
  assumes "c < length (flights s)" "operation (flights s ! c) = None" "\<not> settles c e"
  shows "operation (flights (step e s) ! c) = None"
proof (cases e)
  case (Call k f)
  with assms show ?thesis
    by (simp add: dedup_def return_promise_def Let_def nth_append split: option.splits)
next
  case (Settle c' outcome)
  with assms show ?thesis
    by (auto simp: settle_def settles_def nth_list_update)
next
  case (Run_then c')
  with assms show ?thesis
    by (auto simp: run_then_def Let_def nth_list_update split: option.splits promise.splits)
next
  case (Run_catch c')
  with assms show ?thesis
    by (auto simp: run_catch_def Let_def nth_list_update split: option.splits promise.splits)
next
  case (Run_return h)
  with assms show ?thesis
    by (auto simp: run_return_def split: option.splits)
qed

lemma extends_flight:
  assumes "extends s t" "c < length (flights s)"
  shows "c < length (flights t)" "flight_key (flights t ! c) = flight_key (flights s ! c)"
    "fetcher (flights t ! c) = fetcher (flights s ! c)"
    "operation (flights s ! c) = Some x \<Longrightarrow> operation (flights t ! c) = Some x"
    "after_then (flights s ! c) = Some x \<Longrightarrow> after_then (flights t ! c) = Some x"
    "registered (flights s ! c) = Some x \<Longrightarrow> registered (flights t ! c) = Some x"
  using assms by (auto simp: extends_def flight_kept_def keeps_def)

lemma extends_handle:
  assumes "extends s t" "h < length (handles s)"
  shows "h < length (handles t)" "fst (handles t ! h) = fst (handles s ! h)"
    "snd (handles s ! h) = Some x \<Longrightarrow> snd (handles t ! h) = Some x"
  using assms by (auto simp: extends_def keeps_def)

lemma coalesce_step:
  assumes c: "consistent s" and l: "c < length (flights s)" and k: "flight_key (flights s ! c) = key"
    and o: "operation (flights s ! c) = None" and e: "\<not> settles c e"
  shows "invocations key (step e s) = invocations key s"
    and "count_list (map fst (handles (step e s))) c
           = count_list (map fst (handles s)) c + (if is_call_of key e then 1 else 0)"
proof -
  have entry: "map_of (inflight s) key = Some c"
    using pending_has_entry [OF c l o] k by simp
  show "invocations key (step e s) = invocations key s"
  proof (cases e)
    case (Call k' f)
    with entry show ?thesis
      by (cases "k' = key") (auto simp: invocations_started started_dedup split: option.splits)
  qed (simp_all add: invocations_started)
  show "count_list (map fst (handles (step e s))) c
           = count_list (map fst (handles s)) c + (if is_call_of key e then 1 else 0)"
  proof (cases e)
    case (Call k' f)
    show ?thesis
    proof (cases "k' = key")
      case True
      with Call entry show ?thesis by (simp add: bound_dedup is_call_of_def)
    next
      case False
      have "(case map_of (inflight s) k' of None \<Rightarrow> length (flights s) | Some existing \<Rightarrow> existing) \<noteq> c"
      proof (cases "map_of (inflight s) k'")
        case None
        with l show ?thesis by simp
      next
        case (Some existing)
        with consistent_entry [OF c, of k' existing] have "flight_key (flights s ! existing) = k'" by simp
        with False k Some show ?thesis by auto
      qed
      with Call False show ?thesis by (simp add: bound_dedup is_call_of_def)
    qed
  qed (simp_all add: is_call_of_def)
qed

lemma coalesce_run:
  assumes "consistent s" "c < length (flights s)" "flight_key (flights s ! c) = key"
    and "operation (flights s ! c) = None" "\<forall>e \<in> set es. \<not> settles c e"
  shows "invocations key (run es s) = invocations key s
       \<and> count_list (map fst (handles (run es s))) c
           = count_list (map fst (handles s)) c + length (filter (is_call_of key) es)
       \<and> operation (flights (run es s) ! c) = None"
  using assms
proof (induction es arbitrary: s)
  case Nil
  then show ?case by simp
next
  case (Cons e es)
  from Cons.prems(5) have e: "\<not> settles c e" and es: "\<forall>e \<in> set es. \<not> settles c e" by simp_all
  have 1: "consistent (step e s)" by (rule inv_step [OF Cons.prems(1)])
  have 2: "c < length (flights (step e s))" "flight_key (flights (step e s) ! c) = key"
    using extends_flight(1,2) [OF extends_step Cons.prems(2), of e] Cons.prems(3) by simp_all
  have 3: "operation (flights (step e s) ! c) = None"
    by (rule operation_step [OF Cons.prems(2,4) e])
  note ih = Cons.IH [OF 1 2 3 es]
  note st = coalesce_step [OF Cons.prems(1-4) e]
  from ih st show ?case by simp
qed

lemma registered_is_operation:
  assumes "consistent s" "c < length (flights s)" "registered (flights s ! c) = Some x"
  shows "operation (flights s ! c) = Some x" "after_then (flights s ! c) = Some x"
  using consistent_passed_on [OF assms(1,2)] assms(3) by (auto simp: passed_on_def)

lemma delivered_is_operation:
  assumes "consistent s" "delivered s h = Some x"
  shows "operation_at s (fst (handles s ! h)) = Some x" "registered_at s (fst (handles s ! h)) = Some x"
proof -
  from assms(2) have h: "h < length (handles s)" and d: "snd (handles s ! h) = Some x"
    by (auto simp: delivered_def split: if_splits)
  from consistent_handle [OF assms(1) h] d
  have c: "fst (handles s ! h) < length (flights s)"
    and r: "registered (flights s ! fst (handles s ! h)) = Some x" by auto
  then show "registered_at s (fst (handles s ! h)) = Some x" by (simp add: registered_at_def)
  from registered_is_operation(1) [OF assms(1) c r] c
  show "operation_at s (fst (handles s ! h)) = Some x" by (simp add: operation_at_def)
qed

lemma then_fires:
  assumes "consistent s" "c < length (flights s)" "operation (flights s ! c) = Some x"
  shows "after_then (flights (run_then c s) ! c) = Some x"
proof (cases "after_then (flights s ! c)")
  case None
  with assms(2,3) show ?thesis
    by (cases x) (simp_all add: run_then_def Let_def)
next
  case (Some y)
  with consistent_passed_on [OF assms(1,2)] assms(3) have "y = x" by (simp add: passed_on_def)
  with Some show ?thesis by (simp add: run_then_def)
qed

lemma catch_fires:
  assumes "consistent s" "c < length (flights s)" "after_then (flights s ! c) = Some x"
  shows "registered (flights (run_catch c s) ! c) = Some x"
proof (cases "registered (flights s ! c)")
  case None
  with assms(2,3) show ?thesis
    by (cases x) (simp_all add: run_catch_def Let_def)
next
  case (Some y)
  with consistent_passed_on [OF assms(1,2)] assms(3) have "y = x" by (simp add: passed_on_def)
  with Some show ?thesis by (simp add: run_catch_def)
qed

lemma return_fires:
  assumes "consistent s" "h < length (handles s)" "registered (flights s ! fst (handles s ! h)) = Some x"
  shows "snd (handles (run_return h s) ! h) = Some x"
proof (cases "snd (handles s ! h)")
  case None
  with assms(2,3) consistent_handle(1) [OF assms(1,2)] show ?thesis
    by (simp add: run_return_def registered_at_def)
next
  case (Some y)
  with consistent_handle(2) [OF assms(1,2)] assms(3) have "y = x" by simp
  with Some show ?thesis by (simp add: run_return_def)
qed

lemma upt_split:
  assumes "c < n"
  shows "[0..<n] = [0..<c] @ c # [Suc c..<n]"
proof -
  from assms obtain k where n: "n = c + k" and k: "0 < k"
    by (metis less_imp_add_positive)
  have "[0..<c + k] = [0..<c] @ [c..<c + k]"
    by (rule upt_add_eq_append) simp
  moreover from k have "[c..<c + k] = c # [Suc c..<c + k]"
    by (simp add: upt_conv_Cons)
  ultimately show ?thesis by (simp add: n)
qed

lemma flight_tasks_registered:
  assumes c: "consistent s" and l: "c < length (flights s)" and o: "operation (flights s ! c) = Some x"
    and n: "c < n"
  shows "registered (flights (run (concat (map (\<lambda>c. [Run_then c, Run_catch c]) [0..<n])) s) ! c) = Some x
       \<and> c < length (flights (run (concat (map (\<lambda>c. [Run_then c, Run_catch c]) [0..<n])) s))"
proof -
  let ?f = "\<lambda>c. [Run_then c, Run_catch c]"
  let ?A = "concat (map ?f [0..<c])" and ?B = "concat (map ?f [Suc c..<n])"
  have split: "concat (map ?f [0..<n]) = ?A @ [Run_then c, Run_catch c] @ ?B"
    by (simp add: upt_split [OF n])
  let ?s1 = "run ?A s"
  have c1: "consistent ?s1" by (rule inv_run [OF c])
  have l1: "c < length (flights ?s1)" and o1: "operation (flights ?s1 ! c) = Some x"
    using extends_flight(1,4) [OF extends_run [of s ?A] l] o by simp_all
  let ?s2 = "run_then c ?s1"
  have c2: "consistent ?s2" by (rule inv_run_then [OF c1])
  have l2: "c < length (flights ?s2)"
    by (rule extends_flight(1) [OF extends_run_then l1])
  have a2: "after_then (flights ?s2 ! c) = Some x"
    by (rule then_fires [OF c1 l1 o1])
  let ?s3 = "run_catch c ?s2"
  have l3: "c < length (flights ?s3)"
    by (rule extends_flight(1) [OF extends_run_catch l2])
  have r3: "registered (flights ?s3 ! c) = Some x"
    by (rule catch_fires [OF c2 l2 a2])
  have "run (concat (map ?f [0..<n])) s = run ?B ?s3"
    by (simp add: split run_append)
  moreover have "registered (flights (run ?B ?s3) ! c) = Some x" "c < length (flights (run ?B ?s3))"
    using extends_flight(6,1) [OF extends_run [of ?s3 ?B] l3] r3 by simp_all
  ultimately show ?thesis by simp
qed

lemma return_tasks_delivered:
  assumes c: "consistent s" and h: "h < length (handles s)"
    and r: "registered (flights s ! fst (handles s ! h)) = Some x" and n: "h < n"
  shows "snd (handles (run (map Run_return [0..<n]) s) ! h) = Some x
       \<and> h < length (handles (run (map Run_return [0..<n]) s))"
proof -
  let ?A = "map Run_return [0..<h]" and ?B = "map Run_return [Suc h..<n]"
  have split: "map Run_return [0..<n] = ?A @ [Run_return h] @ ?B"
    by (simp add: upt_split [OF n])
  let ?s1 = "run ?A s"
  have c1: "consistent ?s1" by (rule inv_run [OF c])
  have h1: "h < length (handles ?s1)" "fst (handles ?s1 ! h) = fst (handles s ! h)"
    using extends_handle(1,2) [OF extends_run [of s ?A] h] by simp_all
  have fl: "fst (handles s ! h) < length (flights s)"
    by (rule consistent_handle(1) [OF c h])
  have r1: "registered (flights ?s1 ! fst (handles ?s1 ! h)) = Some x"
    using extends_flight(6) [OF extends_run [of s ?A] fl] r h1(2) by simp
  let ?s2 = "run_return h ?s1"
  have d2: "snd (handles ?s2 ! h) = Some x"
    by (rule return_fires [OF c1 h1(1) r1])
  have h2: "h < length (handles ?s2)"
    by (rule extends_handle(1) [OF extends_run_return h1(1)])
  have "run (map Run_return [0..<n]) s = run ?B ?s2"
    by (simp add: split run_append)
  moreover have "snd (handles (run ?B ?s2) ! h) = Some x" "h < length (handles (run ?B ?s2))"
    using extends_handle(3,1) [OF extends_run [of ?s2 ?B] h2] d2 by simp_all
  ultimately show ?thesis by simp
qed

lemma drain_delivers:
  assumes c: "consistent s" and h: "h < length (handles s)"
    and o: "operation_at s (fst (handles s ! h)) = Some x"
  shows "delivered (drain s) h = Some x"
proof -
  let ?c = "fst (handles s ! h)"
  let ?F = "concat (map (\<lambda>c. [Run_then c, Run_catch c]) [0..<length (flights s)])"
  let ?s1 = "run ?F s"
  have l: "?c < length (flights s)" by (rule consistent_handle(1) [OF c h])
  with o have o': "operation (flights s ! ?c) = Some x" by (simp add: operation_at_def)
  have c1: "consistent ?s1" by (rule inv_run [OF c])
  have h1: "h < length (handles ?s1)" "fst (handles ?s1 ! h) = ?c"
    using extends_handle(1,2) [OF extends_run [of s ?F] h] by simp_all
  have r1: "registered (flights ?s1 ! fst (handles ?s1 ! h)) = Some x"
    using flight_tasks_registered [OF c l o' l] h1(2) by simp
  have "drain s = run (map Run_return [0..<length (handles s)]) ?s1"
    by (simp add: drain_def pending_tasks_def run_append)
  with return_tasks_delivered [OF c1 h1(1) r1 h] show ?thesis
    by (simp add: delivered_def)
qed

lemma drain_registered:
  assumes c: "consistent s" and l: "c < length (flights s)" and o: "operation (flights s ! c) = Some x"
  shows "registered_at (drain s) c = Some x"
proof -
  let ?F = "concat (map (\<lambda>c. [Run_then c, Run_catch c]) [0..<length (flights s)])"
  let ?R = "map Run_return [0..<length (handles s)]"
  from flight_tasks_registered [OF c l o l]
  have 1: "registered (flights (run ?F s) ! c) = Some x" "c < length (flights (run ?F s))" by simp_all
  have "drain s = run ?R (run ?F s)"
    by (simp add: drain_def pending_tasks_def run_append)
  with extends_flight(1,6) [OF extends_run [of "run ?F s" ?R] 1(2)] 1(1) show ?thesis
    by (simp add: registered_at_def)
qed

lemma started_run_tasks:
  "\<forall>e \<in> set es. \<not> is_call e \<Longrightarrow> started (run es s) = started s"
  by (induction es arbitrary: s) (simp_all add: started_step)

lemma started_drain: "started (drain s) = started s"
  by (rule started_run_tasks [of "pending_tasks s" s, folded drain_def])
     (auto simp: pending_tasks_def is_call_def)

lemma settled_not_in_table:
  assumes "consistent s" "registered_at s c \<noteq> None"
  shows "map_of (inflight s) k \<noteq> Some c"
  using consistent_entry [OF assms(1), of k c] assms(2)
  by (auto simp: registered_at_def in_table_def split: if_splits)

lemma first_call:
  assumes c: "consistent s" and n: "map_of (inflight s) key = None"
  shows "length (flights s) < length (flights (step (Call key f) s))"
    and "flight_key (flights (step (Call key f) s) ! length (flights s)) = key"
    and "operation (flights (step (Call key f) s) ! length (flights s)) = None"
    and "invocations key (step (Call key f) s) = invocations key s @ [f]"
    and "count_list (map fst (handles (step (Call key f) s))) (length (flights s)) = 1"
proof -
  show "length (flights s) < length (flights (step (Call key f) s))"
    and "flight_key (flights (step (Call key f) s) ! length (flights s)) = key"
    and "operation (flights (step (Call key f) s) ! length (flights s)) = None"
    using n by (simp_all add: dedup_def return_promise_def Let_def)
  show "invocations key (step (Call key f) s) = invocations key s @ [f]"
    using n by (simp add: invocations_started started_dedup)
  have "\<forall>x \<in> set (map fst (handles s)). x < length (flights s)"
  proof
    fix x assume "x \<in> set (map fst (handles s))"
    then obtain h where "h < length (handles s)" "x = fst (handles s ! h)"
      by (auto simp: in_set_conv_nth)
    with consistent_handle(1) [OF c, of h] show "x < length (flights s)" by simp
  qed
  then have "count_list (map fst (handles s)) (length (flights s)) = 0"
    by (auto simp: count_list_0_iff)
  with n show "count_list (map fst (handles (step (Call key f) s))) (length (flights s)) = 1"
    by (simp add: bound_dedup)
qed

text \<open>
  C1: callers of \<open>dedup\<close> for one key are coalesced. From any state the module can be
  in, with no entry for the key: a first call \<open>dedup(key, f)\<close> followed by any events
  among which the operation it started does not settle (further calls for this key and
  for others, settlements of other operations, reactions, in any order) invokes a fetcher
  for the key exactly once, the first caller's; every one of the \<open>N\<close> calls for the key
  waits for that one operation. Whatever happens afterwards, a caller that has received
  something has received the outcome of that operation, value or error, and once the
  operation has settled and the task queue has run, every one of them has; and the table
  never holds two entries for a key.
\<close>

theorem dedup_coalesces:
  fixes history :: "event list"
  defines "s \<equiv> run history init"
  defines "c \<equiv> length (flights s)"
  assumes none: "map_of (inflight s) key = None"
    and pending: "\<forall>e \<in> set es. \<not> settles c e"
  shows "invocations key (run (Call key f # es) s) = invocations key s @ [f]
       \<and> length (waiting c (run (Call key f # es) s)) = Suc (length (filter (is_call_of key) es))
       \<and> (\<forall>es'. distinct (map fst (inflight (run (Call key f # es @ es') s)))
            \<and> (\<forall>h \<in> set (waiting c (run (Call key f # es) s)).
                 (delivered (run (Call key f # es @ es') s) h = None
                  \<or> delivered (run (Call key f # es @ es') s) h = operation_at (run (Call key f # es @ es') s) c)
               \<and> (operation_at (run (Call key f # es @ es') s) c \<noteq> None \<longrightarrow>
                    delivered (drain (run (Call key f # es @ es') s)) h
                      = operation_at (run (Call key f # es @ es') s) c)))"
proof -
  let ?s1 = "step (Call key f) s"
  let ?t = "run (Call key f # es) s"
  have cs: "consistent s" unfolding s_def by (rule inv_run [OF inv_init])
  have t: "?t = run es ?s1" by simp
  have c1: "consistent ?s1" by (rule inv_step [OF cs])
  note fc = first_call [OF cs none, of f]
  from pending have pending': "\<forall>e \<in> set es. \<not> settles (length (flights s)) e"
    by (simp add: c_def)
  from coalesce_run [OF c1 fc(1,2,3) pending'] fc(4,5)
  have inv: "invocations key ?t = invocations key s @ [f]"
    and cnt: "length (waiting c ?t) = Suc (length (filter (is_call_of key) es))"
    by (simp_all add: waiting_length c_def)
  have rest: "distinct (map fst (inflight (run (Call key f # es @ es') s)))
            \<and> (\<forall>h \<in> set (waiting c ?t).
                 (delivered (run (Call key f # es @ es') s) h = None
                  \<or> delivered (run (Call key f # es @ es') s) h = operation_at (run (Call key f # es @ es') s) c)
               \<and> (operation_at (run (Call key f # es @ es') s) c \<noteq> None \<longrightarrow>
                    delivered (drain (run (Call key f # es @ es') s)) h
                      = operation_at (run (Call key f # es @ es') s) c))" for es'
  proof -
    let ?u = "run (Call key f # es @ es') s"
    have u: "?u = run es' ?t" by (simp add: run_append)
    have cu: "consistent ?u" by (rule inv_run [OF cs])
    have "(delivered ?u h = None \<or> delivered ?u h = operation_at ?u c)
        \<and> (operation_at ?u c \<noteq> None \<longrightarrow> delivered (drain ?u) h = operation_at ?u c)"
      if "h \<in> set (waiting c ?t)" for h
    proof -
      from that have h: "h < length (handles ?t)" "fst (handles ?t ! h) = c"
        by (simp_all add: waiting_member)
      from extends_handle(1,2) [OF extends_run [of ?t es'] h(1)] h(2)
      have hu: "h < length (handles ?u)" "fst (handles ?u ! h) = c"
        unfolding u by simp_all
      have 1: "delivered ?u h = None \<or> delivered ?u h = operation_at ?u c"
        using delivered_is_operation(1) [OF cu, of h] hu(2) by (cases "delivered ?u h") auto
      have 2: "operation_at ?u c \<noteq> None \<longrightarrow> delivered (drain ?u) h = operation_at ?u c"
        using drain_delivers [OF cu hu(1)] hu(2) by auto
      from 1 2 show ?thesis by (rule conjI)
    qed
    with consistent_distinct [OF cu] show ?thesis by blast
  qed
  from inv cnt rest show ?thesis by blast
qed

theorem dedup_coalesces_witness:
  "map_of (inflight (run [] init)) ''k'' = None
   \<and> \<not> settles (length (flights (run [] init))) (Call ''k'' 7)
   \<and> invocations ''k'' (run [Call ''k'' 7, Call ''k'' 7, Call ''k'' 7] init) = [7]
   \<and> waiting 0 (run [Call ''k'' 7, Call ''k'' 7, Call ''k'' 7] init) = [0, 1, 2]
   \<and> delivered (drain (run [Call ''k'' 7, Call ''k'' 7, Call ''k'' 7, Settle 0 (Resolves (JNum 5))] init)) 0
       = Some (Resolves (JNum 5))
   \<and> delivered (drain (run [Call ''k'' 7, Call ''k'' 7, Call ''k'' 7, Settle 0 (Resolves (JNum 5))] init)) 1
       = Some (Resolves (JNum 5))
   \<and> delivered (drain (run [Call ''k'' 7, Call ''k'' 7, Call ''k'' 7, Settle 0 (Resolves (JNum 5))] init)) 2
       = Some (Resolves (JNum 5))"
proof -
  have n: "map_of (inflight (run [] init)) ''k'' = None" by (simp add: init_def)
  have e1: "\<not> settles (length (flights (run [] init))) (Call ''k'' 7)"
    by (simp add: settles_def)
  then have e: "\<forall>e \<in> set [Call ''k'' 7, Call ''k'' 7]. \<not> settles (length (flights (run [] init))) e"
    by simp
  have l: "length (flights init) = 0" and i: "invocations ''k'' init = []" and r: "run [] init = init"
    by (simp_all add: init_def invocations_def)
  have w: "waiting 0 (run [Call ''k'' 7, Call ''k'' 7, Call ''k'' 7] init) = [0, 1, 2]"
    by code_simp
  have o: "operation_at (run [Call ''k'' 7, Call ''k'' 7, Call ''k'' 7, Settle 0 (Resolves (JNum 5))] init) 0
      = Some (Resolves (JNum 5))"
    by code_simp
  from dedup_coalesces [OF n e, of 7] have
    1: "invocations ''k'' (run [Call ''k'' 7, Call ''k'' 7, Call ''k'' 7] init) = [7]"
    and 2: "\<forall>h \<in> set (waiting 0 (run [Call ''k'' 7, Call ''k'' 7, Call ''k'' 7] init)).
       operation_at (run (Call ''k'' 7 # [Call ''k'' 7, Call ''k'' 7] @ [Settle 0 (Resolves (JNum 5))]) init) 0 \<noteq> None \<longrightarrow>
       delivered (drain (run (Call ''k'' 7 # [Call ''k'' 7, Call ''k'' 7] @ [Settle 0 (Resolves (JNum 5))]) init)) h
         = operation_at (run (Call ''k'' 7 # [Call ''k'' 7, Call ''k'' 7] @ [Settle 0 (Resolves (JNum 5))]) init) 0"
    unfolding r l i by (simp, blast)
  from 2 have "\<forall>h \<in> set [0, 1, 2].
         delivered (drain (run [Call ''k'' 7, Call ''k'' 7, Call ''k'' 7, Settle 0 (Resolves (JNum 5))] init)) h
           = Some (Resolves (JNum 5))"
    unfolding w append.simps o by simp
  then have 3: "delivered (drain (run [Call ''k'' 7, Call ''k'' 7, Call ''k'' 7, Settle 0 (Resolves (JNum 5))] init)) 0
       = Some (Resolves (JNum 5))"
    "delivered (drain (run [Call ''k'' 7, Call ''k'' 7, Call ''k'' 7, Settle 0 (Resolves (JNum 5))] init)) 1
       = Some (Resolves (JNum 5))"
    "delivered (drain (run [Call ''k'' 7, Call ''k'' 7, Call ''k'' 7, Settle 0 (Resolves (JNum 5))] init)) 2
       = Some (Resolves (JNum 5))"
    by simp_all
  from n e1 1 w 3 show ?thesis by (intro conjI)
qed

text \<open>
  C2: in every state the module reaches, a caller has been delivered a result or an error
  only after the entry of its operation has left the table; once an operation has settled,
  with a value or with an error, its two reactions settle the registered promise with the
  same outcome and the entry is gone; a rejection reaches every caller that waits for the
  operation; and nothing but a call of \<open>dedup\<close> invokes a fetcher, so a failed operation
  is not started again.
\<close>

theorem settled_entry_removed:
  fixes es :: "event list"
  defines "t \<equiv> run es init"
  shows "(\<forall>h < length (handles t). delivered t h \<noteq> None \<longrightarrow>
            (\<forall>k. map_of (inflight t) k \<noteq> Some (fst (handles t ! h))))
       \<and> (\<forall>c < length (flights t). operation_at t c \<noteq> None \<longrightarrow>
            registered_at (run [Run_then c, Run_catch c] t) c = operation_at t c
            \<and> (\<forall>k. map_of (inflight (run [Run_then c, Run_catch c] t)) k \<noteq> Some c))
       \<and> (\<forall>h < length (handles t). \<forall>err. operation_at t (fst (handles t ! h)) = Some (Rejects err) \<longrightarrow>
            delivered (drain t) h = Some (Rejects err))
       \<and> (\<forall>e. \<not> is_call e \<longrightarrow> started (step e t) = started t)
       \<and> started (drain t) = started t"
proof -
  have ct: "consistent t" unfolding t_def by (rule inv_run [OF inv_init])
  have 1: "\<forall>h < length (handles t). delivered t h \<noteq> None \<longrightarrow>
            (\<forall>k. map_of (inflight t) k \<noteq> Some (fst (handles t ! h)))"
  proof (intro allI impI)
    fix h k assume "h < length (handles t)" "delivered t h \<noteq> None"
    then obtain x where "delivered t h = Some x" by auto
    from delivered_is_operation(2) [OF ct this]
    show "map_of (inflight t) k \<noteq> Some (fst (handles t ! h))"
      by (intro settled_not_in_table [OF ct]) simp
  qed
  have 2: "\<forall>c < length (flights t). operation_at t c \<noteq> None \<longrightarrow>
            registered_at (run [Run_then c, Run_catch c] t) c = operation_at t c
            \<and> (\<forall>k. map_of (inflight (run [Run_then c, Run_catch c] t)) k \<noteq> Some c)"
  proof (intro allI impI)
    fix c assume l: "c < length (flights t)" and "operation_at t c \<noteq> None"
    then obtain x where o: "operation (flights t ! c) = Some x"
      by (auto simp: operation_at_def)
    let ?t1 = "run_then c t"
    have c1: "consistent ?t1" by (rule inv_run_then [OF ct])
    have l1: "c < length (flights ?t1)" by (rule extends_flight(1) [OF extends_run_then l])
    have a1: "after_then (flights ?t1 ! c) = Some x" by (rule then_fires [OF ct l o])
    let ?t2 = "run_catch c ?t1"
    have c2: "consistent ?t2" by (rule inv_run_catch [OF c1])
    have l2: "c < length (flights ?t2)" by (rule extends_flight(1) [OF extends_run_catch l1])
    have r2: "registered (flights ?t2 ! c) = Some x" by (rule catch_fires [OF c1 l1 a1])
    from r2 l2 have r: "registered_at ?t2 c = Some x" by (simp add: registered_at_def)
    then have "\<forall>k. map_of (inflight ?t2) k \<noteq> Some c"
      by (intro allI settled_not_in_table [OF c2]) simp
    with r o l show "registered_at (run [Run_then c, Run_catch c] t) c = operation_at t c
            \<and> (\<forall>k. map_of (inflight (run [Run_then c, Run_catch c] t)) k \<noteq> Some c)"
      by (simp add: operation_at_def)
  qed
  have 3: "\<forall>h < length (handles t). \<forall>err. operation_at t (fst (handles t ! h)) = Some (Rejects err) \<longrightarrow>
            delivered (drain t) h = Some (Rejects err)"
    using drain_delivers [OF ct] by blast
  have 4: "\<forall>e. \<not> is_call e \<longrightarrow> started (step e t) = started t"
    by (simp add: started_step)
  from 1 2 3 4 started_drain [of t] show ?thesis by (intro conjI)
qed

theorem settled_entry_removed_witness:
  "operation_at (run [Call ''k'' 7, Call ''k'' 8, Settle 0 (Rejects (ErrorObj ''boom''))] init) 0
       = Some (Rejects (ErrorObj ''boom''))
   \<and> map_of (inflight (run [Call ''k'' 7, Call ''k'' 8, Settle 0 (Rejects (ErrorObj ''boom''))] init)) ''k'' = Some 0
   \<and> registered_at (run [Run_then 0, Run_catch 0]
        (run [Call ''k'' 7, Call ''k'' 8, Settle 0 (Rejects (ErrorObj ''boom''))] init)) 0
       = Some (Rejects (ErrorObj ''boom''))
   \<and> map_of (inflight (run [Run_then 0, Run_catch 0]
        (run [Call ''k'' 7, Call ''k'' 8, Settle 0 (Rejects (ErrorObj ''boom''))] init))) ''k'' \<noteq> Some 0
   \<and> delivered (drain (run [Call ''k'' 7, Call ''k'' 8, Settle 0 (Rejects (ErrorObj ''boom''))] init)) 1
       = Some (Rejects (ErrorObj ''boom''))
   \<and> started (drain (run [Call ''k'' 7, Call ''k'' 8, Settle 0 (Rejects (ErrorObj ''boom''))] init))
       = started (run [Call ''k'' 7, Call ''k'' 8, Settle 0 (Rejects (ErrorObj ''boom''))] init)"
proof -
  let ?t = "run [Call ''k'' 7, Call ''k'' 8, Settle 0 (Rejects (ErrorObj ''boom''))] init"
  have o: "operation_at ?t 0 = Some (Rejects (ErrorObj ''boom''))" by code_simp
  have m: "map_of (inflight ?t) ''k'' = Some 0" by code_simp
  have f: "0 < length (flights ?t)" by code_simp
  have h: "1 < length (handles ?t)" and b: "fst (handles ?t ! 1) = 0" by code_simp+
  note inst = settled_entry_removed [of "[Call ''k'' 7, Call ''k'' 8, Settle 0 (Rejects (ErrorObj ''boom''))]"]
  from inst f o have 2: "registered_at (run [Run_then 0, Run_catch 0] ?t) 0 = Some (Rejects (ErrorObj ''boom''))"
      "map_of (inflight (run [Run_then 0, Run_catch 0] ?t)) ''k'' \<noteq> Some 0"
    by (metis option.distinct(1))+
  from inst h b o have 3: "delivered (drain ?t) 1 = Some (Rejects (ErrorObj ''boom''))"
    by metis
  from inst have 4: "started (drain ?t) = started ?t"
    by (elim conjE)
  from o m 2 3 4 show ?thesis by (intro conjI)
qed

end
